theory Spec2Isabelle
  imports Main "HOL-Library.Word"
begin

unbundle bit_operations_syntax

text \<open>
  A secret message behind a code. build.js hashes the code, derives a key from it and
  encrypts the message, and injects hash, salt, IV and ciphertext into the page; the script
  of the page hashes the code a visitor enters, compares, and on a match derives the key
  again and decrypts. Both programs are modelled here, with the cryptography of their
  platforms as parameters and the conversions between strings and bytes written out.
\<close>

section \<open>Data: bytes and JavaScript strings\<close>

text \<open>
  A \<^verbatim>\<open>Buffer\<close> or \<^verbatim>\<open>Uint8Array\<close> is a list of 8-bit words. A JavaScript string is a
  list of 16-bit code units; \<^verbatim>\<open>str.length\<close> is the length of that list. Unpaired
  surrogates are legal in a JavaScript string.
\<close>

type_synonym byte = "8 word"
type_synonym jsstring = "16 word list"

text \<open>ASCII literals of the source, as code units.\<close>

definition js :: "string \<Rightarrow> jsstring" where
  "js s = map (\<lambda>c. of_nat (of_char c)) s"

subsection \<open>UTF-8 encoding of a string\<close>

text \<open>
  \<^verbatim>\<open>new TextEncoder().encode(str)\<close> in the page, and the \<^verbatim>\<open>'utf8'\<close> conversion Node
  applies to a string handed to \<^verbatim>\<open>hash.update\<close>, \<^verbatim>\<open>pbkdf2Sync\<close> and
  \<^verbatim>\<open>cipher.update(..., 'utf8')\<close>: the code units are first read as scalar values
  (a surrogate pair is one scalar value, an unpaired surrogate becomes U+FFFD), then each
  scalar value is written as one to four bytes.
\<close>

definition is_high :: "nat \<Rightarrow> bool" where
  "is_high u \<longleftrightarrow> 0xD800 \<le> u \<and> u \<le> 0xDBFF"

definition is_low :: "nat \<Rightarrow> bool" where
  "is_low u \<longleftrightarrow> 0xDC00 \<le> u \<and> u \<le> 0xDFFF"

definition lone :: "nat \<Rightarrow> nat" where
  "lone u = (if is_high u \<or> is_low u then 0xFFFD else u)"

fun scalars :: "nat list \<Rightarrow> nat list" where
  "scalars [] = []"
| "scalars [u] = [lone u]"
| "scalars (u # v # us) =
     (if is_high u \<and> is_low v
      then (0x10000 + (u - 0xD800) * 0x400 + (v - 0xDC00)) # scalars us
      else lone u # scalars (v # us))"

definition utf8_bytes :: "nat \<Rightarrow> nat list" where
  "utf8_bytes c =
     (if c < 0x80 then [c]
      else if c < 0x800 then [0xC0 + c div 0x40, 0x80 + c mod 0x40]
      else if c < 0x10000 then
        [0xE0 + c div 0x1000, 0x80 + c div 0x40 mod 0x40, 0x80 + c mod 0x40]
      else
        [0xF0 + c div 0x40000, 0x80 + c div 0x1000 mod 0x40,
         0x80 + c div 0x40 mod 0x40, 0x80 + c mod 0x40])"

definition utf8_encode :: "jsstring \<Rightarrow> byte list" where
  "utf8_encode s = map of_nat (concat (map utf8_bytes (scalars (map unat s))))"

subsection \<open>UTF-8 decoding to a string\<close>

text \<open>
  \<^verbatim>\<open>new TextDecoder().decode(buffer)\<close>: the decoder is the non-fatal one (\<^verbatim>\<open>fatal\<close>
  defaults to false, so a malformed sequence yields U+FFFD and never throws) and
  \<^verbatim>\<open>ignoreBOM\<close> defaults to false, so a leading EF BB BF is removed before decoding.

  \<open>utf8_dec cp n lo hi bs\<close> is the decoder's state machine: \<open>cp\<close> the code point being
  assembled, \<open>n\<close> the continuation bytes still expected, \<open>lo\<close> and \<open>hi\<close> the bounds
  of the next continuation byte. On a lead byte in C2..DF, E0..EF, F0..F4 the low bits
  \<^verbatim>\<open>byte & 0x1F\<close>, \<^verbatim>\<open>byte & 0xF\<close>, \<^verbatim>\<open>byte & 0x7\<close> are the byte minus C0, E0, F0; on a
  continuation byte in 80..BF, \<^verbatim>\<open>(cp << 6) | (byte & 0x3F)\<close> is \<open>cp * 64 + (byte - 0x80)\<close>.
  A byte outside the bounds ends the sequence with U+FFFD and is read again as a lead byte.
\<close>

fun utf8_dec :: "nat \<Rightarrow> nat \<Rightarrow> nat \<Rightarrow> nat \<Rightarrow> nat list \<Rightarrow> nat list" where
  "utf8_dec cp 0 lo hi [] = []"
| "utf8_dec cp (Suc n) lo hi [] = [0xFFFD]"
| "utf8_dec cp 0 lo hi (b # bs) =
     (if b \<le> 0x7F then b # utf8_dec 0 0 0x80 0xBF bs
      else if 0xC2 \<le> b \<and> b \<le> 0xDF then utf8_dec (b - 0xC0) (Suc 0) 0x80 0xBF bs
      else if 0xE0 \<le> b \<and> b \<le> 0xEF then
        utf8_dec (b - 0xE0) (Suc (Suc 0))
          (if b = 0xE0 then 0xA0 else 0x80) (if b = 0xED then 0x9F else 0xBF) bs
      else if 0xF0 \<le> b \<and> b \<le> 0xF4 then
        utf8_dec (b - 0xF0) (Suc (Suc (Suc 0)))
          (if b = 0xF0 then 0x90 else 0x80) (if b = 0xF4 then 0x8F else 0xBF) bs
      else 0xFFFD # utf8_dec 0 0 0x80 0xBF bs)"
| "utf8_dec cp (Suc n) lo hi (b # bs) =
     (if b < lo \<or> hi < b then 0xFFFD # utf8_dec 0 0 0x80 0xBF (b # bs)
      else if n = 0 then (cp * 0x40 + (b - 0x80)) # utf8_dec 0 0 0x80 0xBF bs
      else utf8_dec (cp * 0x40 + (b - 0x80)) n 0x80 0xBF bs)"

definition utf8_decode :: "nat list \<Rightarrow> nat list" where
  "utf8_decode bs = utf8_dec 0 0 0x80 0xBF bs"

fun strip_bom :: "nat list \<Rightarrow> nat list" where
  "strip_bom (a # b # c # bs) =
     (if a = 0xEF \<and> b = 0xBB \<and> c = 0xBF then bs else a # b # c # bs)"
| "strip_bom bs = bs"

definition utf16_units :: "nat \<Rightarrow> nat list" where
  "utf16_units c =
     (if c < 0x10000 then [c]
      else [0xD800 + (c - 0x10000) div 0x400, 0xDC00 + (c - 0x10000) mod 0x400])"

definition text_decode :: "byte list \<Rightarrow> jsstring" where
  "text_decode bs =
     map of_nat (concat (map utf16_units (utf8_decode (strip_bom (map unat bs)))))"

text \<open>A string is well formed when every surrogate in it is part of a pair.\<close>

fun well_formed_units :: "nat list \<Rightarrow> bool" where
  "well_formed_units [] = True"
| "well_formed_units [u] = (\<not> is_high u \<and> \<not> is_low u)"
| "well_formed_units (u # v # us) =
     (if is_high u then is_low v \<and> well_formed_units us
      else \<not> is_low u \<and> well_formed_units (v # us))"

definition well_formed :: "jsstring \<Rightarrow> bool" where
  "well_formed s = well_formed_units (map unat s)"


text \<open>Scalar values: code points that are not surrogates.\<close>

definition scalar :: "nat \<Rightarrow> bool" where
  "scalar c \<longleftrightarrow> c < 0x110000 \<and> \<not> is_high c \<and> \<not> is_low c"

text \<open>The decoder without the removal of a leading byte order mark.\<close>

definition decode_raw :: "byte list \<Rightarrow> jsstring" where
  "decode_raw bs = map of_nat (concat (map utf16_units (utf8_decode (map unat bs))))"

section \<open>The platform\<close>

text \<open>
  Both programs call the cryptography of their platform: Node's \<^verbatim>\<open>crypto\<close> module in
  build.js, the Web Crypto API (\<^verbatim>\<open>crypto.subtle\<close>) in the page. The primitives are
  parameters of the model: SHA-256 and the other digests, PBKDF2 (RFC 8018) and AES-GCM
  are the same functions on both platforms, so one record serves both. Base64 is a
  parameter as well: \<open>base64\<close> is \<^verbatim>\<open>buffer.toString('base64')\<close>, \<open>atob\<close> the page's
  \<^verbatim>\<open>atob\<close>, which throws on malformed input.
\<close>

text \<open>
  The exceptions of the platform calls the page makes: \<^verbatim>\<open>atob\<close> throws
  InvalidCharacterError, \<^verbatim>\<open>crypto.subtle.decrypt\<close> throws OperationError.
\<close>

datatype exn = InvalidCharacterError | OperationError

datatype hash_alg = SHA_1 | SHA_256 | SHA_384 | SHA_512

record platform =
  digest :: "hash_alg \<Rightarrow> byte list \<Rightarrow> byte list"
  pbkdf2 :: "hash_alg \<Rightarrow> byte list \<Rightarrow> byte list \<Rightarrow> nat \<Rightarrow> nat \<Rightarrow> byte list"
  gcm_encrypt :: "byte list \<Rightarrow> byte list \<Rightarrow> byte list \<Rightarrow> byte list \<times> byte list"
  gcm_decrypt :: "byte list \<Rightarrow> byte list \<Rightarrow> byte list \<Rightarrow> byte list \<Rightarrow> byte list option"
  base64 :: "byte list \<Rightarrow> jsstring"
  atob :: "jsstring \<Rightarrow> exn + jsstring"

text \<open>
  \<open>pbkdf2 P h password salt iterations n\<close> is the \<open>n\<close>-byte key; \<open>gcm_encrypt P key iv
  plaintext\<close> is the pair of ciphertext and authentication tag, with no additional data;
  \<open>gcm_decrypt P key iv ciphertext tag\<close> is the plaintext, or \<open>None\<close> when the tag does
  not verify.
\<close>

subsection \<open>Calls that are logged and may throw\<close>

text \<open>
  A computation of the page returns a value or throws, and leaves the list of platform
  calls it made, in order. \<^verbatim>\<open>await\<close> of a rejected promise is a throw.
\<close>

datatype call = OpDigest | OpAtob | OpImportKey | OpDeriveKey | OpDecrypt

type_synonym 'a io = "(exn + 'a) \<times> call list"

definition io_return :: "'a \<Rightarrow> 'a io" where
  "io_return x = (Inr x, [])"

definition io_call :: "call \<Rightarrow> exn + 'a \<Rightarrow> 'a io" where
  "io_call c r = (r, [c])"

definition io_bind :: "'a io \<Rightarrow> ('a \<Rightarrow> 'b io) \<Rightarrow> 'b io" where
  "io_bind m f =
     (case m of
        (Inl e, l) \<Rightarrow> (Inl e, l)
      | (Inr x, l) \<Rightarrow> (case f x of (r, l') \<Rightarrow> (r, l @ l')))"

definition io_catch :: "'a io \<Rightarrow> (exn \<Rightarrow> 'a io) \<Rightarrow> 'a io" where
  "io_catch m h =
     (case m of
        (Inl e, l) \<Rightarrow> (case h e of (r, l') \<Rightarrow> (r, l @ l'))
      | (Inr x, l) \<Rightarrow> (Inr x, l))"

subsection \<open>The Web Crypto calls of the page\<close>

definition subtle_digest :: "platform \<Rightarrow> hash_alg \<Rightarrow> byte list \<Rightarrow> byte list io" where
  "subtle_digest P alg data = io_call OpDigest (Inr (digest P alg data))"

text \<open>\<^verbatim>\<open>importKey('raw', bytes, 'PBKDF2', ...)\<close>: the key material is the bytes.\<close>

definition subtle_importKey :: "platform \<Rightarrow> byte list \<Rightarrow> byte list io" where
  "subtle_importKey P raw = io_call OpImportKey (Inr raw)"

text \<open>
  \<^verbatim>\<open>deriveKey({name: 'PBKDF2', salt, iterations, hash}, keyMaterial,
  {name: 'AES-GCM', length}, ...)\<close>: \<open>length\<close> bits of PBKDF2 output become the AES key.
\<close>

definition subtle_deriveKey ::
    "platform \<Rightarrow> byte list \<Rightarrow> nat \<Rightarrow> hash_alg \<Rightarrow> byte list \<Rightarrow> nat \<Rightarrow> byte list io" where
  "subtle_deriveKey P salt iterations hash keyMaterial len =
     io_call OpDeriveKey (Inr (pbkdf2 P hash keyMaterial salt iterations (len div 8)))"

text \<open>
  \<^verbatim>\<open>decrypt({name: 'AES-GCM', iv}, key, data)\<close>: the tag length defaults to 128 bits; the
  last 16 bytes of \<open>data\<close> are the tag and the bytes before them the ciphertext. Data
  shorter than a tag, or a tag that does not verify, throws OperationError.
\<close>

definition subtle_decrypt :: "platform \<Rightarrow> byte list \<Rightarrow> byte list \<Rightarrow> byte list \<Rightarrow> byte list io" where
  "subtle_decrypt P key iv data =
     io_call OpDecrypt
       (if length data < 16 then Inl OperationError
        else case gcm_decrypt P key iv (take (length data - 16) data)
                    (drop (length data - 16) data) of
               None \<Rightarrow> Inl OperationError
             | Some plaintext \<Rightarrow> Inr plaintext)"

section \<open>The embedded constants\<close>

text \<open>
  Modelled from the spec: index.html, which declares \<^verbatim>\<open>CODE_HASH\<close>, \<^verbatim>\<open>CODE_LENGTH\<close>,
  \<^verbatim>\<open>SALT\<close>, \<^verbatim>\<open>IV\<close> and \<^verbatim>\<open>ENCRYPTED_MESSAGE\<close> from the text build.js injects, is not
  among the sources. The constants are taken as the spec describes them: four strings
  and a non-negative integer, holding what build.js puts in place of the placeholders.
\<close>

record embedded =
  CODE_HASH :: jsstring
  CODE_LENGTH :: nat
  SALT :: jsstring
  IV :: jsstring
  ENCRYPTED_MESSAGE :: jsstring

section \<open>build.js\<close>

text \<open>Node's \<^verbatim>\<open>digest('hex')\<close>: two lowercase hexadecimal digits for each byte.\<close>

definition digit16 :: "nat \<Rightarrow> 16 word" where
  "digit16 d = (if d < 10 then 0x30 + of_nat d else 0x57 + of_nat d)"

definition node_hex :: "byte list \<Rightarrow> jsstring" where
  "node_hex bs = concat (map (\<lambda>b. [digit16 (unat b div 16), digit16 (unat b mod 16)]) bs)"

text \<open>
  What the script does beyond computing: console output, calls of the \<^verbatim>\<open>crypto\<close> module,
  and the write of dist/index.html with the constants injected.
\<close>

datatype build_event =
  ConsoleLog | ConsoleError | CreateHash | RandomBytes nat | Pbkdf2Sync | CreateCipheriv
  | WriteIndexHtml embedded

text \<open>
  The script from the point where it reads \<^verbatim>\<open>process.env\<close> (the loading of a .env file
  before it only fills \<^verbatim>\<open>process.env\<close>). A variable that is not set is \<open>None\<close>;
  \<^verbatim>\<open>!x\<close> holds of an unset variable and of the empty string. \<^verbatim>\<open>process.exit(1)\<close> is
  \<open>Inl 1\<close>. The random source is a tape of bytes: \<^verbatim>\<open>crypto.randomBytes(n)\<close> returns
  the next \<open>n\<close> bytes and leaves the rest of the tape. The copying of the style sheet,
  the script and the assets after the write of index.html is left out.
\<close>

definition randomBytes :: "nat \<Rightarrow> (nat \<Rightarrow> byte) \<Rightarrow> byte list \<times> (nat \<Rightarrow> byte)" where
  "randomBytes n tape = (map tape [0..<n], \<lambda>i. tape (n + i))"

definition falsy :: "jsstring option \<Rightarrow> bool" where
  "falsy x = (case x of None \<Rightarrow> True | Some s \<Rightarrow> s = [])"

text \<open>
  The values the script binds on its way: \<^verbatim>\<open>codeHash\<close>, \<^verbatim>\<open>salt\<close>, \<^verbatim>\<open>iv\<close>, \<^verbatim>\<open>key\<close>,
  \<^verbatim>\<open>encryptedWithTag\<close>.
\<close>

definition build_salt :: "(nat \<Rightarrow> byte) \<Rightarrow> byte list" where
  "build_salt tape = fst (randomBytes 16 tape)"

definition build_iv :: "(nat \<Rightarrow> byte) \<Rightarrow> byte list" where
  "build_iv tape = fst (randomBytes 12 (snd (randomBytes 16 tape)))"

definition build_codeHash :: "platform \<Rightarrow> jsstring \<Rightarrow> jsstring" where
  "build_codeHash P SECRET_CODE = node_hex (digest P SHA_256 (utf8_encode SECRET_CODE))"

definition build_key :: "platform \<Rightarrow> jsstring \<Rightarrow> byte list \<Rightarrow> byte list" where
  "build_key P SECRET_CODE salt = pbkdf2 P SHA_256 (utf8_encode SECRET_CODE) salt 100000 32"

definition build_encryptedWithTag ::
    "platform \<Rightarrow> byte list \<Rightarrow> byte list \<Rightarrow> jsstring \<Rightarrow> byte list" where
  "build_encryptedWithTag P key iv SECRET_MESSAGE =
     (case gcm_encrypt P key iv (utf8_encode SECRET_MESSAGE) of
        (encrypted, authTag) \<Rightarrow> encrypted @ authTag)"

definition build ::
    "platform \<Rightarrow> jsstring option \<Rightarrow> jsstring option \<Rightarrow> (nat \<Rightarrow> byte)
      \<Rightarrow> (nat + embedded) \<times> build_event list" where
  "build P SECRET_CODE SECRET_MESSAGE tape =
     (if falsy SECRET_CODE \<or> falsy SECRET_MESSAGE then (Inl 1, [ConsoleError])
      else
        case (SECRET_CODE, SECRET_MESSAGE) of
          (Some code, Some message) \<Rightarrow>
            let codeHash = build_codeHash P code;
                salt = build_salt tape;
                iv = build_iv tape;
                key = build_key P code salt;
                encryptedWithTag = build_encryptedWithTag P key iv message;
                K = \<lparr>CODE_HASH = codeHash, CODE_LENGTH = length code,
                     SALT = base64 P salt, IV = base64 P iv,
                     ENCRYPTED_MESSAGE = base64 P encryptedWithTag\<rparr>
            in (Inr K,
                [ConsoleLog, CreateHash, ConsoleLog, RandomBytes 16, RandomBytes 12,
                 Pbkdf2Sync, CreateCipheriv, ConsoleLog, WriteIndexHtml K, ConsoleLog])
        | _ \<Rightarrow> (Inl 1, [ConsoleError]))"

section \<open>The page\<close>

subsection \<open>Crypto helpers\<close>

definition base64ToBytes :: "platform \<Rightarrow> jsstring \<Rightarrow> byte list io" where
  "base64ToBytes P b64 =
     io_bind (io_call OpAtob (atob P b64)) (\<lambda>binary. io_return (map ucast binary))"

text \<open>\<^verbatim>\<open>n.toString(16)\<close> of a non-negative integer, and \<^verbatim>\<open>s.padStart(n, c)\<close>.\<close>

function toString16 :: "nat \<Rightarrow> jsstring" where
  "toString16 n =
     (if n < 16 then [digit16 n] else toString16 (n div 16) @ [digit16 (n mod 16)])"
  by pat_completeness auto
termination
  by (relation "measure id") auto

declare toString16.simps [simp del]

definition padStart :: "nat \<Rightarrow> 16 word \<Rightarrow> jsstring \<Rightarrow> jsstring" where
  "padStart n c s = replicate (n - length s) c @ s"

definition sha256 :: "platform \<Rightarrow> jsstring \<Rightarrow> jsstring io" where
  "sha256 P str =
     (let data = utf8_encode str in
      io_bind (subtle_digest P SHA_256 data) (\<lambda>hashBuffer.
      io_return (concat (map (\<lambda>b. padStart 2 0x30 (toString16 (unat b))) hashBuffer))))"

definition deriveKey :: "platform \<Rightarrow> jsstring \<Rightarrow> byte list \<Rightarrow> byte list io" where
  "deriveKey P password salt =
     io_bind (subtle_importKey P (utf8_encode password)) (\<lambda>keyMaterial.
     subtle_deriveKey P salt 100000 SHA_256 keyMaterial 256)"

text \<open>The body of the \<^verbatim>\<open>try\<close> block, then the function: \<^verbatim>\<open>null\<close> is \<open>None\<close>.\<close>

definition decryptMessage_try :: "platform \<Rightarrow> embedded \<Rightarrow> jsstring \<Rightarrow> jsstring option io" where
  "decryptMessage_try P K code =
     io_bind (base64ToBytes P (SALT K)) (\<lambda>salt.
     io_bind (base64ToBytes P (IV K)) (\<lambda>iv.
     io_bind (base64ToBytes P (ENCRYPTED_MESSAGE K)) (\<lambda>ciphertext.
     io_bind (deriveKey P code salt) (\<lambda>key.
     io_bind (subtle_decrypt P key iv ciphertext) (\<lambda>decrypted.
     io_return (Some (text_decode decrypted)))))))"

definition decryptMessage :: "platform \<Rightarrow> embedded \<Rightarrow> jsstring \<Rightarrow> jsstring option io" where
  "decryptMessage P K code = io_catch (decryptMessage_try P K code) (\<lambda>_. io_return None)"

subsection \<open>The state of the page\<close>

text \<open>
  \<open>isVerifying\<close> is the flag of the script; \<open>boxes\<close> the values of the input boxes;
  \<open>statusText\<close> and \<open>statusClass\<close> the text and class of the status element;
  \<open>shakeTimers\<close> counts the timers of \<^verbatim>\<open>triggerShake\<close> that are pending;
  \<open>revealed\<close> is the message handed to \<^verbatim>\<open>showSuccess\<close>, which hides the inputs and
  starts the reveal sequence. The classes of the boxes and the focus are left out.
\<close>

record ui =
  isVerifying :: bool
  boxes :: "jsstring list"
  statusText :: string
  statusClass :: string
  shakeTimers :: nat
  revealed :: "jsstring option"

definition getCode :: "ui \<Rightarrow> jsstring" where
  "getCode u = concat (boxes u)"

definition showError :: "string \<Rightarrow> ui \<Rightarrow> ui" where
  "showError msg u = u\<lparr>statusText := msg, statusClass := ''status error''\<rparr>"

definition clearError :: "ui \<Rightarrow> ui" where
  "clearError u = u\<lparr>statusText := [], statusClass := ''status''\<rparr>"

definition triggerShake :: "ui \<Rightarrow> ui" where
  "triggerShake u = u\<lparr>shakeTimers := Suc (shakeTimers u)\<rparr>"

definition showSuccess :: "jsstring \<Rightarrow> ui \<Rightarrow> ui" where
  "showSuccess message u = u\<lparr>revealed := Some message\<rparr>"

subsection \<open>verify\<close>

text \<open>
  \<^verbatim>\<open>verify\<close> is an async function. \<open>verify_begin\<close> is its synchronous part, up to the
  first \<^verbatim>\<open>await\<close> (the 800 ms delay): it returns the new state and, when the call got
  past both guards, the code it captured. \<open>verify_resume\<close> is the rest, run when the
  delay is over, on the state the page has then. In \<^verbatim>\<open>if (message)\<close> the value is a
  string or \<^verbatim>\<open>null\<close>: \<^verbatim>\<open>null\<close> and the empty string are falsy.
\<close>

definition verify_begin :: "embedded \<Rightarrow> ui \<Rightarrow> ui \<times> jsstring option" where
  "verify_begin K u =
     (if isVerifying u then (u, None)
      else let code = getCode u in
        if length code \<noteq> CODE_LENGTH K then (u, None)
        else (u\<lparr>isVerifying := True, statusText := ''DECRYPTING...'',
                statusClass := ''status''\<rparr>, Some code))"

definition verify_resume :: "platform \<Rightarrow> embedded \<Rightarrow> jsstring \<Rightarrow> ui \<Rightarrow> ui io" where
  "verify_resume P K code u =
     io_bind (sha256 P code) (\<lambda>hash.
       if hash = CODE_HASH K then
         io_bind (decryptMessage P K code) (\<lambda>message.
           case message of
             Some m \<Rightarrow>
               if m \<noteq> [] then io_return (showSuccess m u)
               else io_return ((triggerShake (showError ''DECRYPTION FAILURE'' u))
                                 \<lparr>isVerifying := False\<rparr>)
           | None \<Rightarrow>
               io_return ((triggerShake (showError ''DECRYPTION FAILURE'' u))
                            \<lparr>isVerifying := False\<rparr>))
       else
         io_return ((triggerShake (showError ''INVALID SIGNAL'' u))\<lparr>isVerifying := False\<rparr>))"

text \<open>A call of \<^verbatim>\<open>verify\<close> that runs to its end with nothing else in between.\<close>

definition verify :: "platform \<Rightarrow> embedded \<Rightarrow> ui \<Rightarrow> ui io" where
  "verify P K u =
     (case verify_begin K u of
        (u', None) \<Rightarrow> io_return u'
      | (u', Some code) \<Rightarrow> verify_resume P K code u')"

subsection \<open>The states of the specification\<close>

text \<open>
  The specification's state machine, read off the state of the page: accepted once
  \<^verbatim>\<open>showSuccess\<close> has run; verifying while the flag is set; after a rejection the flag
  is clear and the status text tells which of the two rejections it was.
\<close>

datatype phase = Idle | Verifying | Accepted jsstring | RejectedHash | RejectedDecrypt

definition phase :: "ui \<Rightarrow> phase" where
  "phase u =
     (case revealed u of
        Some m \<Rightarrow> Accepted m
      | None \<Rightarrow>
          if isVerifying u then Verifying
          else if statusText u = ''INVALID SIGNAL'' then RejectedHash
          else if statusText u = ''DECRYPTION FAILURE'' then RejectedDecrypt
          else Idle)"


subsection \<open>The page over time\<close>

text \<open>
  The page between events: its state, the codes captured by the calls of \<^verbatim>\<open>verify\<close>
  that wait at the delay, oldest first, and the platform calls made so far. An event is
  a call of \<^verbatim>\<open>verify\<close> (from \<^verbatim>\<open>checkAutoVerify\<close>, whose length test is the one
  \<^verbatim>\<open>verify\<close> repeats), the end of the delay of the oldest waiting call, a change of the
  value of a box, a call of \<^verbatim>\<open>clearError\<close>, or the timer of \<^verbatim>\<open>triggerShake\<close>, which
  empties the boxes. The handlers of the boxes are sequences of these: the input handler
  is a change of a value, a call of \<^verbatim>\<open>verify\<close> when the last box was filled, and
  \<^verbatim>\<open>clearError\<close>; the paste handler is changes of values and a call of \<^verbatim>\<open>verify\<close>.

  After the delay \<^verbatim>\<open>verify\<close> reads only the code it captured and the constants, and it
  writes the state of the page only after its last \<^verbatim>\<open>await\<close>; so the rest of a call is
  taken as one event.
\<close>

record world =
  page :: ui
  waiting :: "jsstring list"
  calls :: "call list"

datatype event = CallVerify | DelayOver | SetBox nat jsstring | ClearError | ShakeOver

definition step :: "platform \<Rightarrow> embedded \<Rightarrow> world \<Rightarrow> event \<Rightarrow> world" where
  "step P K w ev =
     (case ev of
        CallVerify \<Rightarrow>
          (case verify_begin K (page w) of
             (u', None) \<Rightarrow> w\<lparr>page := u'\<rparr>
           | (u', Some code) \<Rightarrow> w\<lparr>page := u', waiting := waiting w @ [code]\<rparr>)
      | DelayOver \<Rightarrow>
          (case waiting w of
             [] \<Rightarrow> w
           | code # rest \<Rightarrow>
               (case verify_resume P K code (page w) of
                  (Inr u', l) \<Rightarrow> w\<lparr>page := u', waiting := rest, calls := calls w @ l\<rparr>
                | (Inl e, l) \<Rightarrow> w\<lparr>waiting := rest, calls := calls w @ l\<rparr>))
      | SetBox i v \<Rightarrow> w\<lparr>page := (page w)\<lparr>boxes := (boxes (page w))[i := v]\<rparr>\<rparr>
      | ClearError \<Rightarrow> w\<lparr>page := clearError (page w)\<rparr>
      | ShakeOver \<Rightarrow>
          (case shakeTimers (page w) of
             0 \<Rightarrow> w
           | Suc n \<Rightarrow> w\<lparr>page := (page w)\<lparr>boxes := map (\<lambda>_. []) (boxes (page w)),
                                         shakeTimers := n\<rparr>\<rparr>))"

definition run :: "platform \<Rightarrow> embedded \<Rightarrow> world \<Rightarrow> event list \<Rightarrow> world" where
  "run P K w evs = foldl (step P K) w evs"

text \<open>
  What holds of the page at every moment: a call waits only while the flag is set, at most
  one call waits, and a message has been revealed only with the flag set and no call
  waiting.
\<close>

definition single_flight :: "world \<Rightarrow> bool" where
  "single_flight w \<longleftrightarrow>
     length (waiting w) \<le> 1 \<and>
     (waiting w = [] \<or> (isVerifying (page w) \<and> revealed (page w) = None)) \<and>
     (revealed (page w) = None \<or> isVerifying (page w))"

section \<open>Assumptions on the platform\<close>

text \<open>
  \<open>hash_of\<close> is the string \<^verbatim>\<open>sha256\<close> resolves to, and \<open>flip_bit i bs\<close> is \<open>bs\<close> with
  bit \<open>i mod 8\<close> of byte \<open>i div 8\<close> flipped. Two properties are asked of the platform
  where a claim rests on them: \<^verbatim>\<open>atob\<close> inverts Node's Base64 encoding and yields one
  character for each byte; AES-GCM decryption inverts encryption and the tag is 16 bytes
  long. \<open>gcm_rejects_flip\<close> says that AES-GCM decryption, under a given key and IV, rejects
  the ciphertext with tag of a given plaintext once bit \<open>i\<close> of it has been flipped; it
  is proved further down of AES-GCM as the standard defines it.
\<close>

definition hash_of :: "platform \<Rightarrow> jsstring \<Rightarrow> jsstring" where
  "hash_of P str =
     concat (map (\<lambda>b. padStart 2 0x30 (toString16 (unat b))) (digest P SHA_256 (utf8_encode str)))"

definition flip_bit :: "nat \<Rightarrow> byte list \<Rightarrow> byte list" where
  "flip_bit i bs = bs[i div 8 := (bs ! (i div 8)) XOR push_bit (i mod 8) 1]"

definition base64_inverts :: "platform \<Rightarrow> bool" where
  "base64_inverts P \<longleftrightarrow> (\<forall>bs. atob P (base64 P bs) = Inr (map ucast bs))"

definition gcm_correct :: "platform \<Rightarrow> bool" where
  "gcm_correct P \<longleftrightarrow>
     (\<forall>key iv pt. length (snd (gcm_encrypt P key iv pt)) = 16 \<and>
        gcm_decrypt P key iv (fst (gcm_encrypt P key iv pt)) (snd (gcm_encrypt P key iv pt))
          = Some pt)"

definition gcm_rejects_flip :: "platform \<Rightarrow> byte list \<Rightarrow> byte list \<Rightarrow> byte list \<Rightarrow> nat \<Rightarrow> bool" where
  "gcm_rejects_flip P key iv pt i \<longleftrightarrow>
     (let d = flip_bit i (fst (gcm_encrypt P key iv pt) @ snd (gcm_encrypt P key iv pt))
      in gcm_decrypt P key iv (take (length d - 16) d) (drop (length d - 16) d) = None)"

subsection \<open>AES-GCM\<close>

















subsection \<open>A small platform\<close>

text \<open>
  An instance of the platform on which the definitions can be run: the digest is the
  first 32 bytes of the input padded with zeros, the derived key is cut from password and
  salt, encryption is the identity with a parity byte as tag, Base64 maps a byte to the
  character with its code. Its random tape counts from zero.
\<close>

definition toy_tag :: "byte list \<Rightarrow> byte list" where
  "toy_tag ct = foldr (XOR) ct 0 # replicate 15 0"

definition toy :: platform where
  "toy = \<lparr>digest = (\<lambda>alg bs. take 32 (bs @ replicate 32 0)),
          pbkdf2 = (\<lambda>alg password salt iterations n. take n (password @ salt @ replicate n 0)),
          gcm_encrypt = (\<lambda>key iv pt. (pt, toy_tag pt)),
          gcm_decrypt = (\<lambda>key iv ct tag. if tag = toy_tag ct then Some ct else None),
          base64 = map ucast,
          atob = (\<lambda>s. if list_all (\<lambda>c. c < 0x100) s then Inr s else Inl InvalidCharacterError)\<rparr>"

definition toy_tape :: "nat \<Rightarrow> byte" where
  "toy_tape i = of_nat i"

text \<open>
  A page with the given values in its boxes, before any attempt, and the page with the
  characters of a string in its boxes, one in each.
\<close>

definition fresh :: "jsstring list \<Rightarrow> ui" where
  "fresh bs = \<lparr>isVerifying = False, boxes = bs, statusText = [], statusClass = ''status'',
               shakeTimers = 0, revealed = None\<rparr>"

definition typed :: "jsstring \<Rightarrow> ui" where
  "typed s = fresh (map (\<lambda>c. [c]) s)"


text \<open>
  The constants built on the small platform for the code \<open>A\<close> and the message \<open>M\<close>, and
  the page at its start: \<^verbatim>\<open>createBoxes\<close> has made \<^verbatim>\<open>CODE_LENGTH\<close> empty boxes, no call
  waits and no platform call has been made.
\<close>

definition toy_embedded :: embedded where
  "toy_embedded =
     \<lparr>CODE_HASH = js ''4100000000000000000000000000000000000000000000000000000000000000'',
      CODE_LENGTH = 1,
      SALT = [0, 1, 2, 3, 4, 5, 6, 7, 8, 9, 10, 11, 12, 13, 14, 15],
      IV = [16, 17, 18, 19, 20, 21, 22, 23, 24, 25, 26, 27],
      ENCRYPTED_MESSAGE = [0x4D, 0x4D, 0, 0, 0, 0, 0, 0, 0, 0, 0, 0, 0, 0, 0, 0, 0]\<rparr>"

definition start :: "embedded \<Rightarrow> world" where
  "start K = \<lparr>page = fresh (replicate (CODE_LENGTH K) []), waiting = [], calls = []\<rparr>"






section \<open>Preparation followed by verification\<close>

text \<open>
  How a call of \<^verbatim>\<open>verify\<close> ends, in the states of the specification, and the build
  followed by a call of \<^verbatim>\<open>verify\<close> on a page that embeds what the build produced.
\<close>

datatype outcome = BuildExit nat | Threw exn | Ended phase

definition verify_outcome :: "platform \<Rightarrow> embedded \<Rightarrow> ui \<Rightarrow> outcome" where
  "verify_outcome P K u =
     (case fst (verify P K u) of Inl e \<Rightarrow> Threw e | Inr u' \<Rightarrow> Ended (phase u'))"

definition prepare_then_verify ::
    "platform \<Rightarrow> jsstring option \<Rightarrow> jsstring option \<Rightarrow> (nat \<Rightarrow> byte) \<Rightarrow> ui \<Rightarrow> outcome" where
  "prepare_then_verify P SECRET_CODE SECRET_MESSAGE tape u =
     (case fst (build P SECRET_CODE SECRET_MESSAGE tape) of
        Inl n \<Rightarrow> BuildExit n
      | Inr K \<Rightarrow> verify_outcome P K u)"

section \<open>UTF-8: decoding inverts encoding\<close>

text \<open>
  The decoder, run on the bytes of a scalar value, returns that scalar value and goes
  on with the rest in its initial state. So decoding inverts encoding on well-formed
  strings, up to the byte order mark that \<open>text_decode\<close> removes, and encoding is
  injective on well-formed strings.
\<close>

lemma dec2:
  "2 \<le> a \<Longrightarrow> a < 32 \<Longrightarrow> b < 64 \<Longrightarrow>
   utf8_dec 0 0 0x80 0xBF ((0xC0 + a) # (0x80 + b) # bs) = (a * 64 + b) # utf8_dec 0 0 0x80 0xBF bs"
  by simp

lemma dec3:
  "a < 16 \<Longrightarrow> b < 64 \<Longrightarrow> d < 64 \<Longrightarrow> (a = 0 \<longrightarrow> 32 \<le> b) \<Longrightarrow> (a = 13 \<longrightarrow> b < 32) \<Longrightarrow>
   utf8_dec 0 0 0x80 0xBF ((0xE0 + a) # (0x80 + b) # (0x80 + d) # bs)
     = ((a * 64 + b) * 64 + d) # utf8_dec 0 0 0x80 0xBF bs"
  by (simp add: not_less not_le, arith)

lemma dec4:
  "a < 5 \<Longrightarrow> b < 64 \<Longrightarrow> d < 64 \<Longrightarrow> e < 64 \<Longrightarrow> (a = 0 \<longrightarrow> 16 \<le> b) \<Longrightarrow> (a = 4 \<longrightarrow> b < 16) \<Longrightarrow>
   utf8_dec 0 0 0x80 0xBF ((0xF0 + a) # (0x80 + b) # (0x80 + d) # (0x80 + e) # bs)
     = (((a * 64 + b) * 64 + d) * 64 + e) # utf8_dec 0 0 0x80 0xBF bs"
  by (simp add: not_less not_le, arith)

lemma div_4096: "(c::nat) div 4096 = c div 64 div 64"
  by (simp add: div_mult2_eq[symmetric])

lemma div_262144: "(c::nat) div 262144 = c div 64 div 64 div 64"
  by (simp add: div_mult2_eq[symmetric])

lemma utf8_bytes_cases [consumes 1, case_names one two three four]:
  assumes "scalar c"
  obtains "c < 0x80" "utf8_bytes c = [c]"
  | q d where "c = q * 64 + d" "2 \<le> q" "q < 32" "d < 64" "utf8_bytes c = [0xC0 + q, 0x80 + d]"
  | p b d where "c = (p * 64 + b) * 64 + d" "p < 16" "b < 64" "d < 64"
      "p = 0 \<longrightarrow> 32 \<le> b" "p = 13 \<longrightarrow> b < 32"
      "utf8_bytes c = [0xE0 + p, 0x80 + b, 0x80 + d]"
  | a e b d where "c = ((a * 64 + e) * 64 + b) * 64 + d" "a < 5" "e < 64" "b < 64" "d < 64"
      "a = 0 \<longrightarrow> 16 \<le> e" "a = 4 \<longrightarrow> e < 16"
      "utf8_bytes c = [0xF0 + a, 0x80 + e, 0x80 + b, 0x80 + d]"
proof -
  define d where "d = c mod 64"
  define q where "q = c div 64"
  define b where "b = q mod 64"
  define p where "p = q div 64"
  define e where "e = p mod 64"
  define a where "a = p div 64"
  have c: "c = q * 64 + d" and d: "d < 64" by (simp_all add: q_def d_def)
  have q: "q = p * 64 + b" and b: "b < 64" by (simp_all add: p_def b_def)
  have p: "p = a * 64 + e" and e: "e < 64" by (simp_all add: a_def e_def)
  have bytes: "utf8_bytes c =
     (if c < 0x80 then [c]
      else if c < 0x800 then [0xC0 + q, 0x80 + d]
      else if c < 0x10000 then [0xE0 + p, 0x80 + b, 0x80 + d]
      else [0xF0 + a, 0x80 + e, 0x80 + b, 0x80 + d])"
    unfolding utf8_bytes_def div_4096 div_262144 a_def e_def p_def b_def q_def d_def ..
  have sc: "c < 0x110000" "c < 0xD800 \<or> 0xDFFF < c"
    using assms unfolding scalar_def is_high_def is_low_def by linarith+
  consider "c < 0x80" | "0x80 \<le> c" "c < 0x800" | "0x800 \<le> c" "c < 0x10000"
    | "0x10000 \<le> c" 
    by linarith
  then show ?thesis
  proof cases
    case 1
    then show ?thesis using that(1) by (simp add: bytes)
  next
    case 2
    show ?thesis
    proof (rule that(2) [of q d])
      show "c = q * 64 + d" by (rule c)
      show "2 \<le> q" "q < 32" using 2 c d by linarith+
      show "utf8_bytes c = [0xC0 + q, 0x80 + d]" using 2 by (simp add: bytes)
    qed (rule d)
  next
    case 3
    show ?thesis
    proof (rule that(3) [of p b d])
      show "c = (p * 64 + b) * 64 + d" using c q by simp
      show "p < 16" using 3 c q d b by linarith
      show "p = 0 \<longrightarrow> 32 \<le> b" using 3 c q d b by auto
      show "p = 13 \<longrightarrow> b < 32" using sc c q d b by auto
      show "utf8_bytes c = [0xE0 + p, 0x80 + b, 0x80 + d]" using 3 by (simp add: bytes)
    qed (rule b d)+
  next
    case 4
    show ?thesis
    proof (rule that(4) [of a e b d])
      show "c = ((a * 64 + e) * 64 + b) * 64 + d" using c q p by simp
      show "a < 5" using sc c q p d b e by linarith
      show "a = 0 \<longrightarrow> 16 \<le> e" using 4 c q p d b e by auto
      show "a = 4 \<longrightarrow> e < 16" using sc c q p d b e by auto
      show "utf8_bytes c = [0xF0 + a, 0x80 + e, 0x80 + b, 0x80 + d]" using 4 by (simp add: bytes)
    qed (rule b d e)+
  qed
qed

lemma dec_utf8_bytes:
  assumes "scalar c"
  shows "utf8_dec 0 0 0x80 0xBF (utf8_bytes c @ bs) = c # utf8_dec 0 0 0x80 0xBF bs"
  using assms
proof (cases rule: utf8_bytes_cases)
  case one
  then show ?thesis by simp
next
  case (two q d)
  then show ?thesis by (simp only: append_Cons append_Nil dec2)
next
  case (three p b d)
  then show ?thesis by (simp only: append_Cons append_Nil dec3)
next
  case (four a e b d)
  then show ?thesis by (simp only: append_Cons append_Nil dec4)
qed

lemma utf8_bytes_bound:
  assumes "scalar c"
  shows "\<forall>b\<in>set (utf8_bytes c). b < 256"
  using assms by (cases rule: utf8_bytes_cases) simp_all

lemma strip_bom_utf8_bytes:
  assumes "scalar c" "c \<noteq> 0xFEFF"
  shows "strip_bom (utf8_bytes c @ bs) = utf8_bytes c @ bs"
  using assms(1)
proof (cases rule: utf8_bytes_cases)
  case one
  then show ?thesis by (cases bs rule: strip_bom.cases) auto
next
  case (two q d)
  then show ?thesis by (cases bs) auto
next
  case (three p b d)
  then show ?thesis using assms(2) by auto
next
  case (four a e b d)
  then show ?thesis by auto
qed


lemma utf8_decode_encode:
  "\<forall>c\<in>set cs. scalar c \<Longrightarrow> utf8_decode (concat (map utf8_bytes cs) @ bs) = cs @ utf8_decode bs"
  by (induction cs) (simp_all add: utf8_decode_def dec_utf8_bytes)

lemma scalar_lone: "u < 0x10000 \<Longrightarrow> scalar (lone u)"
  by (simp add: scalar_def lone_def is_high_def is_low_def)

lemma surrogate_offsets:
  assumes "is_high u" "is_low v"
  obtains x y where "u = 0xD800 + x" "v = 0xDC00 + y" "x < 0x400" "y < 0x400"
proof
  show "u = 0xD800 + (u - 0xD800)" "v = 0xDC00 + (v - 0xDC00)"
    "u - 0xD800 < 0x400" "v - 0xDC00 < 0x400"
    using assms unfolding is_high_def is_low_def by linarith+
qed

lemma scalar_pair:
  assumes "is_high u" "is_low v"
  shows "scalar (0x10000 + (u - 0xD800) * 0x400 + (v - 0xDC00))"
proof -
  from assms obtain x y where "u = 0xD800 + x" "v = 0xDC00 + y" "x < 0x400" "y < 0x400"
    by (rule surrogate_offsets)
  then show ?thesis by (simp add: scalar_def is_high_def is_low_def)
qed

lemma scalars_scalar: "\<forall>u\<in>set us. u < 0x10000 \<Longrightarrow> \<forall>c\<in>set (scalars us). scalar c"
  by (induction us rule: scalars.induct) (simp_all add: scalar_lone scalar_pair)

lemma utf16_units_pair:
  assumes "is_high u" "is_low v"
  shows "utf16_units (0x10000 + (u - 0xD800) * 0x400 + (v - 0xDC00)) = [u, v]"
proof -
  from assms obtain x y where "u = 0xD800 + x" "v = 0xDC00 + y" "x < 0x400" "y < 0x400"
    by (rule surrogate_offsets)
  then show ?thesis by (simp add: utf16_units_def)
qed

lemma utf16_roundtrip:
  "well_formed_units us \<Longrightarrow> \<forall>u\<in>set us. u < 0x10000 \<Longrightarrow> concat (map utf16_units (scalars us)) = us"
proof (induction us rule: scalars.induct)
  case 1
  then show ?case by simp
next
  case (2 u)
  then show ?case by (simp add: lone_def utf16_units_def)
next
  case (3 u v us)
  show ?case
  proof (cases "is_high u")
    case True
    with 3 show ?thesis by (simp add: utf16_units_pair del: One_nat_def)
  next
    case False
    with 3 show ?thesis by (simp add: lone_def utf16_units_def)
  qed
qed

lemma unat_units_bound: "\<forall>u\<in>set (map unat (s :: jsstring)). u < 0x10000"
proof
  fix u assume "u \<in> set (map unat s)"
  then obtain w :: "16 word" where "u = unat w" by auto
  moreover have "unat w < 2 ^ LENGTH(16)" by (rule unsigned_less)
  ultimately show "u < 0x10000" by simp
qed

lemma scalars_of_string: "\<forall>c\<in>set (scalars (map unat (s :: jsstring))). scalar c"
  by (rule scalars_scalar) (rule unat_units_bound)

lemma unat_utf8_encode:
  "map unat (utf8_encode s) = concat (map utf8_bytes (scalars (map unat s)))"
proof -
  have "map (\<lambda>b. unat (of_nat b :: byte)) (concat (map utf8_bytes (scalars (map unat s))))
      = concat (map utf8_bytes (scalars (map unat s)))"
  proof (rule map_idI)
    fix b assume "b \<in> set (concat (map utf8_bytes (scalars (map unat s))))"
    then have "b < 256" using scalars_of_string [of s] utf8_bytes_bound by auto
    then show "unat (of_nat b :: byte) = b" by (simp add: unat_of_nat)
  qed
  then show ?thesis by (simp add: utf8_encode_def comp_def)
qed

lemma utf8_decode_string: "utf8_decode (map unat (utf8_encode s)) = scalars (map unat s)"
  using utf8_decode_encode [OF scalars_of_string, of s "[]"]
  by (simp add: unat_utf8_encode utf8_decode_def)

lemma units_of_scalars:
  assumes "well_formed s"
  shows "map of_nat (concat (map utf16_units (scalars (map unat s)))) = s"
proof -
  have "concat (map utf16_units (scalars (map unat s))) = map unat s"
    using assms unat_units_bound by (intro utf16_roundtrip) (simp_all add: well_formed_def)
  then show ?thesis by (simp add: comp_def)
qed

lemma decode_raw_encode: "well_formed s \<Longrightarrow> decode_raw (utf8_encode s) = s"
  by (simp add: decode_raw_def utf8_decode_string units_of_scalars)

lemma utf8_encode_inj:
  assumes "well_formed s" "well_formed t" "utf8_encode s = utf8_encode t"
  shows "s = t"
proof -
  have "s = decode_raw (utf8_encode s)" using assms(1) by (simp only: decode_raw_encode)
  also have "\<dots> = decode_raw (utf8_encode t)" by (simp only: assms(3))
  also have "\<dots> = t" using assms(2) by (simp only: decode_raw_encode)
  finally show ?thesis .
qed

lemma scalars_hd:
  assumes "well_formed_units us" "us \<noteq> []" "hd us \<noteq> 0xFEFF"
  shows "scalars us \<noteq> [] \<and> hd (scalars us) \<noteq> 0xFEFF"
  using assms
proof (cases us rule: scalars.cases)
  case (3 u v ws)
  show ?thesis
  proof (cases "is_high u \<and> is_low v")
    case True
    then obtain x y where "u = 0xD800 + x" "v = 0xDC00 + y" "x < 0x400" "y < 0x400"
      by (auto elim: surrogate_offsets)
    then show ?thesis using 3 True by simp
  next
    case False
    then show ?thesis using 3 assms by (auto simp: lone_def)
  qed
qed (auto simp: lone_def)

lemma strip_bom_encode:
  assumes "well_formed s" "s \<noteq> []" "hd s \<noteq> 0xFEFF"
  shows "strip_bom (map unat (utf8_encode s)) = map unat (utf8_encode s)"
proof -
  have "hd (map unat s) \<noteq> 0xFEFF"
  proof
    assume "hd (map unat s) = 0xFEFF"
    then have "unat (hd s) = unat (0xFEFF :: 16 word)" using assms(2) by (simp add: hd_map)
    then have "hd s = 0xFEFF" by (rule word_unat_eq_iff [THEN iffD2])
    then show False using assms(3) by simp
  qed
  then have "scalars (map unat s) \<noteq> [] \<and> hd (scalars (map unat s)) \<noteq> 0xFEFF"
    using assms by (intro scalars_hd) (simp_all add: well_formed_def)
  then obtain c cs where cs: "scalars (map unat s) = c # cs" "c \<noteq> 0xFEFF"
    by (cases "scalars (map unat s)") auto
  then have "scalar c" using scalars_of_string [of s] by simp
  then show ?thesis using cs by (simp add: unat_utf8_encode strip_bom_utf8_bytes)
qed

lemma text_decode_encode:
  assumes "well_formed s" "s = [] \<or> hd s \<noteq> 0xFEFF"
  shows "text_decode (utf8_encode s) = s"
proof (cases "s = []")
  case True
  then show ?thesis by (simp add: text_decode_def utf8_encode_def utf8_decode_def)
next
  case False
  then have "strip_bom (map unat (utf8_encode s)) = map unat (utf8_encode s)"
    using assms by (intro strip_bom_encode) auto
  then show ?thesis
    using decode_raw_encode [OF assms(1)] by (simp add: text_decode_def decode_raw_def)
qed

section \<open>The helpers of the page\<close>

lemma sha256_eq: "sha256 P str = (Inr (hash_of P str), [OpDigest])"
  by (simp add: sha256_def hash_of_def subtle_digest_def io_bind_def io_call_def io_return_def)

lemma decryptMessage_try_value:
  "decryptMessage_try P K code = (Inr r, l) \<Longrightarrow> \<exists>pt. r = Some (text_decode pt)"
  by (auto simp: decryptMessage_try_def io_bind_def io_return_def split: prod.splits sum.splits)

lemma unat_digit16: "d < 16 \<Longrightarrow> unat (digit16 d) = (if d < 10 then 48 + d else 87 + d)"
  by (simp add: digit16_def unat_of_nat unat_word_ariths)

lemma digit16_inj:
  assumes "d < 16" "e < 16" "digit16 d = digit16 e"
  shows "d = e"
proof -
  have "unat (digit16 d) = unat (digit16 e)" using assms(3) by simp
  then show ?thesis using assms(1,2) by (simp add: unat_digit16 split: if_splits)
qed

lemma hex_of_byte:
  assumes "n < 256"
  shows "padStart 2 0x30 (toString16 n) = [digit16 (n div 16), digit16 (n mod 16)]"
proof (cases "n < 16")
  case True
  then show ?thesis by (simp add: toString16.simps [of n] padStart_def digit16_def)
next
  case False
  then have "n div 16 < 16" using assms by simp
  then have "toString16 n = [digit16 (n div 16), digit16 (n mod 16)]"
    using False by (simp add: toString16.simps [of n] toString16.simps [of "n div 16"])
  then show ?thesis by (simp add: padStart_def)
qed

lemma hash_of_node_hex: "hash_of P str = node_hex (digest P SHA_256 (utf8_encode str))"
proof -
  have "padStart 2 0x30 (toString16 (unat b)) = [digit16 (unat b div 16), digit16 (unat b mod 16)]"
    for b :: byte
  proof (rule hex_of_byte)
    have "unat b < 2 ^ LENGTH(8)" by (rule unsigned_less)
    then show "unat b < 256" by simp
  qed
  then show ?thesis by (simp add: hash_of_def node_hex_def)
qed

lemma hex_pair_inj:
  fixes a b :: byte
  assumes "[digit16 (unat a div 16), digit16 (unat a mod 16)]
         = [digit16 (unat b div 16), digit16 (unat b mod 16)]"
  shows "a = b"
proof -
  have a: "unat a < 256" and b: "unat b < 256"
    using unsigned_less [of a, where 'a = nat] unsigned_less [of b, where 'a = nat] by simp_all
  have "unat a div 16 = unat b div 16"
    using assms a b by (intro digit16_inj) simp_all
  moreover have "unat a mod 16 = unat b mod 16"
    using assms by (intro digit16_inj) simp_all
  ultimately have "unat a = unat b" by (metis div_mult_mod_eq)
  then show ?thesis by (simp add: word_unat_eq_iff)
qed

lemma node_hex_inj: "node_hex bs = node_hex cs \<Longrightarrow> bs = cs"
proof (induction bs arbitrary: cs)
  case Nil
  then show ?case by (cases cs) (simp_all add: node_hex_def)
next
  case (Cons b bs)
  then obtain c cs' where cs: "cs = c # cs'" by (cases cs) (auto simp: node_hex_def)
  with Cons.prems have "b = c" and "node_hex bs = node_hex cs'"
    by (auto simp: node_hex_def intro: hex_pair_inj)
  with Cons.IH cs show ?case by simp
qed


lemma ucast_byte_unit: "ucast (ucast (b :: byte) :: 16 word) = b"
  by (rule ucast_up_ucast_id) (simp add: is_up)

lemma base64ToBytes_ok:
  "base64_inverts P \<Longrightarrow> base64ToBytes P (base64 P bs) = (Inr bs, [OpAtob])"
  by (simp add: base64ToBytes_def base64_inverts_def io_bind_def io_call_def io_return_def
      comp_def ucast_byte_unit)

lemma deriveKey_eq:
  "deriveKey P code salt = (Inr (build_key P code salt), [OpImportKey, OpDeriveKey])"
  by (simp add: deriveKey_def build_key_def subtle_importKey_def subtle_deriveKey_def
      io_bind_def io_call_def)

lemma subtle_decrypt_appended:
  assumes "length tag = 16"
  shows "subtle_decrypt P key iv (ct @ tag) =
     (case gcm_decrypt P key iv ct tag of None \<Rightarrow> Inl OperationError | Some pt \<Rightarrow> Inr pt,
      [OpDecrypt])"
  using assms by (simp add: subtle_decrypt_def io_call_def)

lemma subtle_decrypt_built:
  assumes "gcm_correct P"
  shows "subtle_decrypt P key iv (build_encryptedWithTag P key iv message)
     = (Inr (utf8_encode message), [OpDecrypt])"
proof -
  obtain ct tag where e: "gcm_encrypt P key iv (utf8_encode message) = (ct, tag)"
    by (cases "gcm_encrypt P key iv (utf8_encode message)")
  with assms have "length tag = 16" "gcm_decrypt P key iv ct tag = Some (utf8_encode message)"
    unfolding gcm_correct_def by (metis snd_conv, metis fst_conv snd_conv)
  then show ?thesis
    using e by (simp add: build_encryptedWithTag_def subtle_decrypt_appended)
qed

lemma build_ok:
  assumes "code \<noteq> []" "message \<noteq> []"
  shows "fst (build P (Some code) (Some message) tape) =
    Inr \<lparr>CODE_HASH = build_codeHash P code, CODE_LENGTH = length code,
         SALT = base64 P (build_salt tape), IV = base64 P (build_iv tape),
         ENCRYPTED_MESSAGE =
           base64 P (build_encryptedWithTag P (build_key P code (build_salt tape))
             (build_iv tape) message)\<rparr>"
  using assms by (simp add: build_def falsy_def Let_def)

lemma decryptMessage_try_built:
  assumes "base64_inverts P" "gcm_correct P"
    and "SALT K = base64 P salt" "IV K = base64 P iv"
    and "ENCRYPTED_MESSAGE K = base64 P (build_encryptedWithTag P (build_key P code salt) iv message)"
  shows "decryptMessage_try P K code =
    (Inr (Some (text_decode (utf8_encode message))),
     [OpAtob, OpAtob, OpAtob, OpImportKey, OpDeriveKey, OpDecrypt])"
  using assms
  by (simp add: decryptMessage_try_def base64ToBytes_ok deriveKey_eq subtle_decrypt_built
      io_bind_def io_return_def)

lemma verify_resume_mismatch:
  assumes "hash_of P code \<noteq> CODE_HASH K"
  shows "verify_resume P K code u =
    (Inr ((triggerShake (showError ''INVALID SIGNAL'' u))\<lparr>isVerifying := False\<rparr>), [OpDigest])"
  using assms by (simp add: verify_resume_def sha256_eq io_bind_def io_return_def)

lemma verify_resume_match:
  assumes "hash_of P code = CODE_HASH K" "decryptMessage P K code = (Inr r, l)"
  shows "verify_resume P K code u =
    (Inr (case r of
            Some m \<Rightarrow> if m \<noteq> [] then showSuccess m u
                      else (triggerShake (showError ''DECRYPTION FAILURE'' u))\<lparr>isVerifying := False\<rparr>
          | None \<Rightarrow> (triggerShake (showError ''DECRYPTION FAILURE'' u))\<lparr>isVerifying := False\<rparr>),
     OpDigest # l)"
  using assms
  by (simp add: verify_resume_def sha256_eq io_bind_def io_return_def split: option.splits)

lemma verify_past_guards:
  assumes "\<not> isVerifying u" "length (getCode u) = CODE_LENGTH K"
  shows "verify P K u =
     verify_resume P K (getCode u)
       (u\<lparr>isVerifying := True, statusText := ''DECRYPTING...'', statusClass := ''status''\<rparr>)"
  using assms by (simp add: verify_def verify_begin_def)

lemma phase_rejected_hash:
  "revealed u = None \<Longrightarrow>
   phase ((triggerShake (showError ''INVALID SIGNAL'' u))\<lparr>isVerifying := False\<rparr>) = RejectedHash"
  by (simp add: phase_def triggerShake_def showError_def)

lemma phase_rejected_decrypt:
  "revealed u = None \<Longrightarrow>
   phase ((triggerShake (showError ''DECRYPTION FAILURE'' u))\<lparr>isVerifying := False\<rparr>)
     = RejectedDecrypt"
  by (simp add: phase_def triggerShake_def showError_def)

lemma phase_success: "phase (showSuccess m u) = Accepted m"
  by (simp add: phase_def showSuccess_def)

lemma verify_outcome_mismatch:
  assumes "\<not> isVerifying u" "length (getCode u) = CODE_LENGTH K" "revealed u = None"
    and "hash_of P (getCode u) \<noteq> CODE_HASH K"
  shows "verify_outcome P K u = Ended RejectedHash"
  using assms
  by (simp add: verify_outcome_def verify_past_guards verify_resume_mismatch phase_rejected_hash)

lemma verify_outcome_match:
  assumes "\<not> isVerifying u" "length (getCode u) = CODE_LENGTH K" "revealed u = None"
    and "hash_of P (getCode u) = CODE_HASH K"
    and "decryptMessage P K (getCode u) = (Inr r, l)"
  shows "verify_outcome P K u =
     Ended (case r of Some m \<Rightarrow> if m \<noteq> [] then Accepted m else RejectedDecrypt
            | None \<Rightarrow> RejectedDecrypt)"
  using assms
  by (simp add: verify_outcome_def verify_past_guards verify_resume_match [OF assms(4,5)]
      phase_rejected_decrypt phase_success split: option.splits)

lemma build_key_cong:
  "utf8_encode c = utf8_encode code \<Longrightarrow> build_key P c salt = build_key P code salt"
  by (simp add: build_key_def)

lemma prepare_then_verify_same_bytes:
  assumes "code \<noteq> []" "message \<noteq> []"
    and "base64_inverts P" "gcm_correct P"
    and "\<not> isVerifying u" "revealed u = None"
    and "length (getCode u) = length code" "utf8_encode (getCode u) = utf8_encode code"
  shows "prepare_then_verify P (Some code) (Some message) tape u =
     Ended (if text_decode (utf8_encode message) \<noteq> []
            then Accepted (text_decode (utf8_encode message)) else RejectedDecrypt)"
proof -
  define K where "K = \<lparr>CODE_HASH = build_codeHash P code, CODE_LENGTH = length code,
         SALT = base64 P (build_salt tape), IV = base64 P (build_iv tape),
         ENCRYPTED_MESSAGE =
           base64 P (build_encryptedWithTag P (build_key P code (build_salt tape))
             (build_iv tape) message)\<rparr>"
  have b: "fst (build P (Some code) (Some message) tape) = Inr K"
    unfolding K_def by (rule build_ok [OF assms(1,2)])
  have "ENCRYPTED_MESSAGE K =
      base64 P (build_encryptedWithTag P (build_key P (getCode u) (build_salt tape))
        (build_iv tape) message)"
    by (simp add: K_def build_key_cong [OF assms(8)])
  then have "decryptMessage P K (getCode u) =
      (Inr (Some (text_decode (utf8_encode message))),
       [OpAtob, OpAtob, OpAtob, OpImportKey, OpDeriveKey, OpDecrypt])"
    using decryptMessage_try_built
      [OF assms(3,4), of K "build_salt tape" "build_iv tape" "getCode u" message]
    by (simp add: K_def decryptMessage_def io_catch_def)
  moreover have "hash_of P (getCode u) = CODE_HASH K"
    using assms(8) by (simp add: K_def hash_of_node_hex build_codeHash_def)
  moreover have "length (getCode u) = CODE_LENGTH K"
    using assms(7) by (simp add: K_def)
  ultimately have "verify_outcome P K u =
     Ended (if text_decode (utf8_encode message) \<noteq> []
            then Accepted (text_decode (utf8_encode message)) else RejectedDecrypt)"
    using assms(5,6) by (simp add: verify_outcome_match)
  then show ?thesis by (simp add: prepare_then_verify_def b)
qed

lemma prepare_then_verify_same_code:
  assumes "code \<noteq> []" "message \<noteq> []"
    and "base64_inverts P" "gcm_correct P"
    and "\<not> isVerifying u" "revealed u = None" "getCode u = code"
  shows "prepare_then_verify P (Some code) (Some message) tape u =
     Ended (if text_decode (utf8_encode message) \<noteq> []
            then Accepted (text_decode (utf8_encode message)) else RejectedDecrypt)"
  using assms by (intro prepare_then_verify_same_bytes) simp_all

text \<open>
  Two consequences on every platform that meets the assumptions: a message that is the
  single character U+FEFF is decrypted to the empty string, and the right code is rejected;
  a candidate with the bytes of the secret code is accepted whether or not it is the
  secret code.
\<close>

lemma bom_message_rejected:
  assumes "code \<noteq> []" "base64_inverts P" "gcm_correct P"
    and "\<not> isVerifying u" "revealed u = None" "getCode u = code"
  shows "prepare_then_verify P (Some code) (Some [0xFEFF]) tape u = Ended RejectedDecrypt"
proof -
  have "text_decode (utf8_encode [0xFEFF]) = []"
    by (simp add: text_decode_def utf8_encode_def utf8_bytes_def lone_def is_high_def is_low_def
        utf8_decode_def)
  then show ?thesis
    using prepare_then_verify_same_code [OF assms(1) _ assms(2-6), of "[0xFEFF]" tape] by simp
qed

lemma same_bytes_accepted:
  assumes "code \<noteq> []" "message \<noteq> []" "well_formed message" "hd message \<noteq> 0xFEFF"
    and "base64_inverts P" "gcm_correct P"
    and "\<not> isVerifying u" "revealed u = None"
    and "length (getCode u) = length code" "utf8_encode (getCode u) = utf8_encode code"
  shows "prepare_then_verify P (Some code) (Some message) tape u = Ended (Accepted message)"
proof -
  have "text_decode (utf8_encode message) = message"
    using assms(3,4) by (intro text_decode_encode) simp_all
  then show ?thesis
    using prepare_then_verify_same_bytes [OF assms(1,2,5-10), of tape] assms(2) by simp
qed

lemma decryptMessage_returns: "\<exists>r. fst (decryptMessage P K code) = Inr r"
  by (cases "decryptMessage_try P K code")
    (auto simp: decryptMessage_def io_catch_def io_return_def split: sum.splits)

lemma fresh_simps:
  "\<not> isVerifying (fresh bs)" "revealed (fresh bs) = None" "getCode (fresh bs) = concat bs"
  by (simp_all add: fresh_def getCode_def)

lemma concat_singletons: "concat (map (\<lambda>c. [c]) s) = s"
  by (induction s) simp_all

lemma typed_simps:
  "\<not> isVerifying (typed s)" "revealed (typed s) = None" "getCode (typed s) = s"
  by (simp_all add: typed_def fresh_simps concat_singletons)

lemma build_salt_iv_length: "length (build_salt tape) = 16 \<and> length (build_iv tape) = 12"
  by (simp add: build_salt_def build_iv_def randomBytes_def)

lemma prepare_then_verify_other_code:
  assumes "code \<noteq> []" "message \<noteq> []"
    and "\<not> isVerifying u" "revealed u = None" "length (getCode u) = length code"
    and "digest P SHA_256 (utf8_encode (getCode u)) \<noteq> digest P SHA_256 (utf8_encode code)"
  shows "prepare_then_verify P (Some code) (Some message) tape u = Ended RejectedHash"
proof -
  define K where "K = \<lparr>CODE_HASH = build_codeHash P code, CODE_LENGTH = length code,
         SALT = base64 P (build_salt tape), IV = base64 P (build_iv tape),
         ENCRYPTED_MESSAGE =
           base64 P (build_encryptedWithTag P (build_key P code (build_salt tape))
             (build_iv tape) message)\<rparr>"
  have b: "fst (build P (Some code) (Some message) tape) = Inr K"
    unfolding K_def by (rule build_ok [OF assms(1,2)])
  have "hash_of P (getCode u) \<noteq> CODE_HASH K"
    using assms(6) node_hex_inj by (auto simp: K_def hash_of_node_hex build_codeHash_def)
  moreover have "length (getCode u) = CODE_LENGTH K"
    using assms(5) by (simp add: K_def)
  ultimately have "verify_outcome P K u = Ended RejectedHash"
    using assms(3,4) by (simp add: verify_outcome_mismatch)
  then show ?thesis by (simp add: prepare_then_verify_def b)
qed

lemma length_flip_bit: "length (flip_bit i bs) = length bs"
  by (simp add: flip_bit_def)


lemma try_fails_on_bad_salt:
  "atob P (SALT K) = Inl e \<Longrightarrow> decryptMessage_try P K code = (Inl e, [OpAtob])"
  by (simp add: decryptMessage_try_def base64ToBytes_def io_bind_def io_call_def)

lemma try_fails_on_bad_ciphertext:
  assumes "atob P (SALT K) = Inr s" "atob P (IV K) = Inr v" "atob P (ENCRYPTED_MESSAGE K) = Inl e"
  shows "decryptMessage_try P K code = (Inl e, [OpAtob, OpAtob, OpAtob])"
  using assms
  by (simp add: decryptMessage_try_def base64ToBytes_def io_bind_def io_call_def io_return_def)

lemma try_fails_on_decrypt:
  assumes "atob P (SALT K) = Inr s" "atob P (IV K) = Inr v" "atob P (ENCRYPTED_MESSAGE K) = Inr c"
    and "fst (subtle_decrypt P (build_key P code (map ucast s)) (map ucast v) (map ucast c)) = Inl e"
  shows "decryptMessage_try P K code =
     (Inl e, [OpAtob, OpAtob, OpAtob, OpImportKey, OpDeriveKey, OpDecrypt])"
  using assms
  by (simp add: decryptMessage_try_def base64ToBytes_def deriveKey_eq io_bind_def io_call_def
      io_return_def subtle_decrypt_def split: if_splits option.splits)

lemma verify_resume_cases:
  obtains m l where "verify_resume P K code u = (Inr (showSuccess m u), l)"
  | msg l where "verify_resume P K code u =
      (Inr ((triggerShake (showError msg u))\<lparr>isVerifying := False\<rparr>), l)"
proof (cases "hash_of P code = CODE_HASH K")
  case False
  then show ?thesis using that(2) verify_resume_mismatch by blast
next
  case True
  obtain r l where d: "decryptMessage P K code = (Inr r, l)"
    using decryptMessage_returns [of P K code] by (cases "decryptMessage P K code") auto
  show ?thesis
  proof (cases "\<exists>m. r = Some m \<and> m \<noteq> []")
    case True
    then obtain m where "r = Some m" "m \<noteq> []" by blast
    then show ?thesis
      using that(1) verify_resume_match [OF \<open>hash_of P code = CODE_HASH K\<close> d, of u] by simp
  next
    case False
    then show ?thesis
      using that(2) verify_resume_match [OF \<open>hash_of P code = CODE_HASH K\<close> d, of u]
      by (cases r) auto
  qed
qed

lemma step_CallVerify_busy:
  "isVerifying (page w) \<Longrightarrow> step P K w CallVerify = w"
  by (simp add: step_def verify_begin_def)

lemma single_flight_step:
  assumes "single_flight w"
  shows "single_flight (step P K w ev)"
proof (cases ev)
  case CallVerify
  then show ?thesis
    using assms
    by (auto simp: step_def verify_begin_def single_flight_def Let_def)
next
  case DelayOver
  show ?thesis
  proof (cases "waiting w")
    case Nil
    then show ?thesis using assms DelayOver by (simp add: step_def)
  next
    case (Cons code rest)
    then have busy: "isVerifying (page w)" "revealed (page w) = None" "rest = []"
      using assms by (auto simp: single_flight_def)
    show ?thesis
    proof (cases rule: verify_resume_cases [of P K code "page w"])
      case (1 m l)
      then show ?thesis
        using DelayOver Cons busy by (simp add: step_def single_flight_def showSuccess_def)
    next
      case (2 msg l)
      then show ?thesis
        using DelayOver Cons busy
        by (simp add: step_def single_flight_def triggerShake_def showError_def)
    qed
  qed
next
  case (SetBox i v)
  then show ?thesis using assms by (simp add: step_def single_flight_def)
next
  case ClearError
  then show ?thesis using assms by (simp add: step_def single_flight_def clearError_def)
next
  case ShakeOver
  then show ?thesis using assms by (simp add: step_def single_flight_def split: nat.splits)
qed

lemma single_flight_run: "single_flight w \<Longrightarrow> single_flight (run P K w evs)"
  unfolding run_def by (induction evs arbitrary: w) (simp_all add: single_flight_step)

lemma accepted_step:
  assumes "single_flight w" "revealed (page w) = Some m"
  shows "revealed (page (step P K w ev)) = Some m \<and> calls (step P K w ev) = calls w
    \<and> waiting (step P K w ev) = []"
proof -
  have w: "isVerifying (page w)" "waiting w = []"
    using assms by (auto simp: single_flight_def)
  show ?thesis
    using assms(2) w
    by (cases ev) (simp_all add: step_def verify_begin_def clearError_def split: nat.splits)
qed

lemma accepted_run:
  assumes "single_flight w" "revealed (page w) = Some m"
  shows "revealed (page (run P K w evs)) = Some m \<and> calls (run P K w evs) = calls w
    \<and> waiting (run P K w evs) = []"
  using assms
proof (induction evs arbitrary: w)
  case Nil
  then show ?case by (auto simp: run_def single_flight_def)
next
  case (Cons ev evs)
  have a: "single_flight (step P K w ev)" using Cons.prems(1) by (rule single_flight_step)
  have s: "revealed (page (step P K w ev)) = Some m" "calls (step P K w ev) = calls w"
    using accepted_step [OF Cons.prems, of P K ev] by simp_all
  from Cons.IH [OF a s(1)] show ?case using s(2) by (simp add: run_def)
qed

lemma phase_Accepted: "phase u = Accepted m \<longleftrightarrow> revealed u = Some m"
  by (auto simp: phase_def split: option.splits)

section \<open>The small platform meets the assumptions\<close>

lemma ucast_byte_small: "(ucast (b :: byte) :: 16 word) < 0x100"
proof -
  have "unat b < 2 ^ LENGTH(8)" by (rule unsigned_less)
  then have "unat b < 256" by simp
  moreover have "unat (ucast b :: 16 word) = take_bit 16 (unat b)"
    by (simp add: unsigned_ucast_eq)
  ultimately have "unat (ucast b :: 16 word) < 256"
    by (simp add: take_bit_nat_eq_self)
  then show ?thesis by (simp add: word_less_nat_alt)
qed

lemma toy_base64: "base64_inverts toy"
  by (simp add: base64_inverts_def toy_def list_all_iff ucast_byte_small)

lemma toy_gcm: "gcm_correct toy"
  by (simp add: gcm_correct_def toy_def toy_tag_def)

lemma parity_update:
  "j < length xs \<Longrightarrow> foldr (XOR) (xs[j := xs ! j XOR m]) (0 :: byte) = foldr (XOR) xs 0 XOR m"
proof (induction xs arbitrary: j)
  case Nil
  then show ?case by simp
next
  case (Cons x xs)
  show ?case
  proof (cases j)
    case 0
    then show ?thesis by (simp add: ac_simps)
  next
    case (Suc k)
    with Cons show ?thesis by (simp add: ac_simps)
  qed
qed

lemma bit_nonzero: "k < 8 \<Longrightarrow> push_bit k (1 :: byte) \<noteq> 0"
  by simp

lemma xor_changes:
  assumes "m \<noteq> 0"
  shows "(x :: byte) XOR m \<noteq> x"
proof
  assume "x XOR m = x"
  then have "x XOR (x XOR m) = x XOR x" by simp
  then have "m = 0" by (simp add: xor.assoc [symmetric])
  then show False using assms by simp
qed

lemma toy_rejects_flips:
  assumes "i < 8 * length (fst (gcm_encrypt toy key iv pt) @ snd (gcm_encrypt toy key iv pt))"
  shows "gcm_rejects_flip toy key iv pt i"
proof -
  have "(if drop (length d - 16) d = toy_tag (take (length d - 16) d)
         then Some (take (length d - 16) d) else None) = None"
    if i: "i < 8 * length (pt @ toy_tag pt)" and d: "d = flip_bit i (pt @ toy_tag pt)"
    for i pt d
  proof -
    define j where "j = i div 8"
    define m :: byte where "m = push_bit (i mod 8) 1"
    have m: "m \<noteq> 0" unfolding m_def by (rule bit_nonzero) simp
    have len: "length (toy_tag pt) = 16" by (simp add: toy_tag_def)
    have j: "j < length pt + 16" using i len unfolding j_def by simp
    have dl: "length d - 16 = length pt" using d len by (simp add: length_flip_bit)
    have d': "d = (pt @ toy_tag pt)[j := (pt @ toy_tag pt) ! j XOR m]"
      using d unfolding flip_bit_def j_def m_def .
    show ?thesis
    proof (cases "j < length pt")
      case True
      then have "d = pt[j := pt ! j XOR m] @ toy_tag pt"
        using d' by (simp add: list_update_append nth_append)
      then have "take (length d - 16) d = pt[j := pt ! j XOR m]" "drop (length d - 16) d = toy_tag pt"
        using dl by simp_all
      moreover have "toy_tag (pt[j := pt ! j XOR m]) \<noteq> toy_tag pt"
        using True xor_changes [OF m] by (simp add: toy_tag_def parity_update)
      ultimately show ?thesis by simp
    next
      case False
      define k where "k = j - length pt"
      have k: "k < 16" using j False unfolding k_def by simp
      have "d = pt @ (toy_tag pt)[k := toy_tag pt ! k XOR m]"
        using d' False by (simp add: k_def list_update_append nth_append)
      then have "take (length d - 16) d = pt"
          "drop (length d - 16) d = (toy_tag pt)[k := toy_tag pt ! k XOR m]"
        using dl by simp_all
      moreover have "(toy_tag pt)[k := toy_tag pt ! k XOR m] \<noteq> toy_tag pt"
      proof
        assume "(toy_tag pt)[k := toy_tag pt ! k XOR m] = toy_tag pt"
        then have "(toy_tag pt)[k := toy_tag pt ! k XOR m] ! k = toy_tag pt ! k" by simp
        then have "toy_tag pt ! k XOR m = toy_tag pt ! k" using k len by simp
        then show False using xor_changes [OF m] by simp
      qed
      ultimately show ?thesis by simp
    qed
  qed
  then show ?thesis using assms by (simp add: gcm_rejects_flip_def toy_def Let_def)
qed

lemma replicate_32:
  "replicate 32 x = [x, x, x, x, x, x, x, x, x, x, x, x, x, x, x, x,
                     x, x, x, x, x, x, x, x, x, x, x, x, x, x, x, x]"
  by (simp add: eval_nat_numeral)

lemma replicate_15:
  "replicate 15 x = [x, x, x, x, x, x, x, x, x, x, x, x, x, x, x]"
  by (simp add: eval_nat_numeral)

lemmas toy_run = run_def step_def verify_begin_def verify_resume_def sha256_eq
  hash_of_node_hex node_hex_def Let_def decryptMessage_def decryptMessage_try_def
  base64ToBytes_def deriveKey_def subtle_importKey_def subtle_deriveKey_def subtle_decrypt_def
  io_bind_def io_call_def io_return_def io_catch_def falsy_def showSuccess_def showError_def
  triggerShake_def clearError_def getCode_def fresh_def typed_def start_def toy_embedded_def
  toy_def
  toy_tag_def js_def utf8_encode_def utf8_bytes_def lone_def is_high_def is_low_def
  text_decode_def utf8_decode_def utf16_units_def digit16_def replicate_15 replicate_32

lemma toy_salt: "build_salt toy_tape = [0, 1, 2, 3, 4, 5, 6, 7, 8, 9, 10, 11, 12, 13, 14, 15]"
  by (simp add: build_salt_def randomBytes_def toy_tape_def upt_rec)

lemma toy_iv: "build_iv toy_tape = [16, 17, 18, 19, 20, 21, 22, 23, 24, 25, 26, 27]"
  by (simp add: build_iv_def randomBytes_def toy_tape_def upt_rec)

lemma toy_build:
  "fst (build toy (Some (js ''A'')) (Some (js ''M'')) toy_tape) = Inr toy_embedded"
  by (simp add: build_def build_codeHash_def build_key_def build_encryptedWithTag_def
      toy_salt toy_iv toy_run)

lemma toy_encrypted:
  "build_encryptedWithTag toy (build_key toy (js ''A'') (build_salt toy_tape))
      (build_iv toy_tape) (js ''M'')
     = [0x4D, 0x4D, 0, 0, 0, 0, 0, 0, 0, 0, 0, 0, 0, 0, 0, 0, 0]"
  by (simp add: build_key_def build_encryptedWithTag_def toy_run)

section \<open>A message that begins with a byte order mark\<close>

lemma scalars_bom: "scalars (0xFEFF # us) = 0xFEFF # scalars us"
  by (cases us) (simp_all add: lone_def is_high_def is_low_def)

lemma utf8_bytes_bom: "utf8_bytes 0xFEFF = [0xEF, 0xBB, 0xBF]"
  by (simp add: utf8_bytes_def)

lemma text_decode_bom:
  assumes "well_formed m"
  shows "text_decode (utf8_encode (0xFEFF # m)) = m"
proof -
  have "map unat (utf8_encode (0xFEFF # m)) = [0xEF, 0xBB, 0xBF] @ map unat (utf8_encode m)"
    by (simp add: unat_utf8_encode scalars_bom utf8_bytes_bom)
  then have "strip_bom (map unat (utf8_encode (0xFEFF # m))) = map unat (utf8_encode m)"
    by simp
  then show ?thesis
    using decode_raw_encode [OF assms] by (simp add: text_decode_def decode_raw_def)
qed

lemma round_trip_no_bom:
  assumes "code \<noteq> []" "message \<noteq> []"
    and "well_formed message" "hd message \<noteq> 0xFEFF"
    and "base64_inverts P" "gcm_correct P"
    and "\<not> isVerifying u" "revealed u = None" "getCode u = code"
  shows "prepare_then_verify P (Some code) (Some message) tape u = Ended (Accepted message)"
  using assms by (intro same_bytes_accepted) simp_all

section \<open>AES-GCM rejects a ciphertext with tag in which a bit was flipped\<close>






















subsection \<open>The second small platform\<close>
















section \<open>Claims\<close>

text \<open>
  C1. Round trip, where the code departs from it: a message that begins with U+FEFF does
  not come back. The build encrypts U+FEFF as EF BB BF; \<^verbatim>\<open>new TextDecoder().decode\<close> takes
  these bytes at the start of the plaintext for a byte order mark and removes them. For
  every non-empty code and every well-formed \<open>m\<close>, on a platform whose \<^verbatim>\<open>atob\<close> inverts
  Base64 and whose AES-GCM decryption inverts encryption, the build with the message
  U+FEFF followed by \<open>m\<close> and \<^verbatim>\<open>verify\<close> with the same code end in Accepted with \<open>m\<close>, not
  with the message; and when \<open>m\<close> is empty, \<^verbatim>\<open>decryptMessage\<close> returns the empty string,
  \<^verbatim>\<open>if (message)\<close> takes it for a failure, and the right code ends in RejectedDecrypt.
  (\<open>round_trip_no_bom\<close> is the round trip for the messages that do not begin with U+FEFF.)
\<close>

theorem leading_bom_lost:
  assumes "code \<noteq> []" "well_formed m"
    and "base64_inverts P" "gcm_correct P"
    and "\<not> isVerifying u" "revealed u = None" "getCode u = code"
  shows "prepare_then_verify P (Some code) (Some (0xFEFF # m)) tape u
     = Ended (if m = [] then RejectedDecrypt else Accepted m)"
proof -
  have "text_decode (utf8_encode (0xFEFF # m)) = m"
    using assms(2) by (rule text_decode_bom)
  then show ?thesis
    using prepare_then_verify_same_code [OF assms(1) _ assms(3-7), of "0xFEFF # m" tape]
    by simp
qed

theorem leading_bom_lost_witness:
  "js ''A'' \<noteq> [] \<and> well_formed [] \<and> well_formed (js ''X'')
   \<and> base64_inverts toy \<and> gcm_correct toy
   \<and> prepare_then_verify toy (Some (js ''A'')) (Some [0xFEFF]) toy_tape (typed (js ''A''))
       = Ended RejectedDecrypt
   \<and> prepare_then_verify toy (Some (js ''A'')) (Some (0xFEFF # js ''X'')) toy_tape
        (typed (js ''A''))
       = Ended (Accepted (js ''X''))"
proof -
  have 1: "js ''A'' \<noteq> []" by (simp add: js_def)
  have 2: "well_formed []" and 3: "well_formed (js ''X'')"
    by (simp_all add: js_def well_formed_def is_high_def is_low_def)
  have 5: "getCode (typed (js ''A'')) = js ''A''" by (simp add: typed_simps)
  have a: "prepare_then_verify toy (Some (js ''A'')) (Some [0xFEFF]) toy_tape (typed (js ''A''))
       = Ended RejectedDecrypt"
    using leading_bom_lost [OF 1 2 toy_base64 toy_gcm typed_simps(1,2) 5, of toy_tape] by simp
  have "js ''X'' \<noteq> []" by (simp add: js_def)
  then have b: "prepare_then_verify toy (Some (js ''A'')) (Some (0xFEFF # js ''X'')) toy_tape
        (typed (js ''A'')) = Ended (Accepted (js ''X''))"
    using leading_bom_lost [OF 1 3 toy_base64 toy_gcm typed_simps(1,2) 5, of toy_tape] by simp
  show ?thesis by (intro conjI) (rule 1 2 3 toy_base64 toy_gcm a b)+
qed

text \<open>
  C2. The two sides agree on the key and on the layout: \<^verbatim>\<open>deriveKey\<close> of the page returns,
  for every code and salt, the key the build derives, which is PBKDF2 with SHA-256 over
  the UTF-8 bytes of the code, 100000 iterations and 32 bytes; and when the tag AES-GCM
  returns is 16 bytes long, the build's output is the ciphertext followed by the tag, and
  the page's decryption of that output is AES-GCM decryption of exactly that ciphertext
  under exactly that tag.
\<close>

theorem kdf_contract:
  assumes "gcm_encrypt P key iv (utf8_encode message) = (ct, tag)" "length tag = 16"
  shows "deriveKey P code salt = (Inr (build_key P code salt), [OpImportKey, OpDeriveKey])
    \<and> build_key P code salt = pbkdf2 P SHA_256 (utf8_encode code) salt 100000 32
    \<and> build_encryptedWithTag P key iv message = ct @ tag
    \<and> subtle_decrypt P key iv (build_encryptedWithTag P key iv message) =
        (case gcm_decrypt P key iv ct tag of None \<Rightarrow> Inl OperationError | Some pt \<Rightarrow> Inr pt,
         [OpDecrypt])"
  using assms
  by (simp add: deriveKey_eq build_key_def build_encryptedWithTag_def subtle_decrypt_appended)

theorem kdf_contract_witness:
  "gcm_encrypt toy (build_key toy (js ''A'') (build_salt toy_tape)) (build_iv toy_tape)
       (utf8_encode (js ''M'')) = ([0x4D], toy_tag [0x4D])
   \<and> length (toy_tag [0x4D]) = 16
   \<and> deriveKey toy (js ''A'') (build_salt toy_tape)
       = (Inr (build_key toy (js ''A'') (build_salt toy_tape)), [OpImportKey, OpDeriveKey])
   \<and> build_encryptedWithTag toy (build_key toy (js ''A'') (build_salt toy_tape))
         (build_iv toy_tape) (js ''M'') = [0x4D] @ toy_tag [0x4D]
   \<and> subtle_decrypt toy (build_key toy (js ''A'') (build_salt toy_tape)) (build_iv toy_tape)
         (build_encryptedWithTag toy (build_key toy (js ''A'') (build_salt toy_tape))
            (build_iv toy_tape) (js ''M''))
       = (Inr [0x4D], [OpDecrypt])"
proof -
  let ?key = "build_key toy (js ''A'') (build_salt toy_tape)"
  let ?iv = "build_iv toy_tape"
  have 1: "gcm_encrypt toy ?key ?iv (utf8_encode (js ''M'')) = ([0x4D], toy_tag [0x4D])"
    by (simp add: toy_def js_def utf8_encode_def utf8_bytes_def lone_def is_high_def is_low_def)
  have 2: "length (toy_tag [0x4D]) = 16" by (simp add: toy_tag_def)
  have 3: "gcm_decrypt toy ?key ?iv [0x4D] (toy_tag [0x4D]) = Some [0x4D]"
    by (simp add: toy_def)
  note k = kdf_contract [OF 1 2, of "js ''A''" "build_salt toy_tape"]
  from k have a: "deriveKey toy (js ''A'') (build_salt toy_tape)
      = (Inr ?key, [OpImportKey, OpDeriveKey])"
    by (rule conjunct1)
  from k have c: "build_encryptedWithTag toy ?key ?iv (js ''M'') = [0x4D] @ toy_tag [0x4D]"
    by blast
  from k have "subtle_decrypt toy ?key ?iv (build_encryptedWithTag toy ?key ?iv (js ''M''))
      = (case gcm_decrypt toy ?key ?iv [0x4D] (toy_tag [0x4D]) of
           None \<Rightarrow> Inl OperationError | Some pt \<Rightarrow> Inr pt, [OpDecrypt])"
    by blast
  also have "\<dots> = (Inr [0x4D], [OpDecrypt])" by (simp only: 3 option.case)
  finally have d: "subtle_decrypt toy ?key ?iv
      (build_encryptedWithTag toy ?key ?iv (js ''M'')) = (Inr [0x4D], [OpDecrypt])" .
  show ?thesis by (intro conjI) (rule 1 2 a c d)+
qed

text \<open>
  C3 (amended). Wrong code of the right length: a candidate that has the length of the
  secret code and whose UTF-8 encoding differs from that of the secret code is rejected at
  the hash check, provided SHA-256 does not collide on the two encodings. Two well-formed
  strings that differ have different encodings (\<open>utf8_encode_inj\<close>), so this covers every
  well-formed candidate against a well-formed code; it also covers a candidate with an
  unpaired surrogate whose encoding is not that of the code. The witness is the case of
  \<open>ABC123\<close> and \<open>abc123\<close> (the check is case-sensitive) and the case of \<open>AB\<close> and the
  candidate \<open>A\<close> followed by the unpaired surrogate D800.
\<close>

theorem wrong_code_rejected:
  assumes "code \<noteq> []" "message \<noteq> []"
    and "length code2 = length code" "utf8_encode code2 \<noteq> utf8_encode code"
    and "digest P SHA_256 (utf8_encode code2) = digest P SHA_256 (utf8_encode code)
          \<longrightarrow> utf8_encode code2 = utf8_encode code"
    and "\<not> isVerifying u" "revealed u = None" "getCode u = code2"
  shows "prepare_then_verify P (Some code) (Some message) tape u = Ended RejectedHash"
proof -
  have "digest P SHA_256 (utf8_encode (getCode u)) \<noteq> digest P SHA_256 (utf8_encode code)"
    using assms(4,5,8) by blast
  then show ?thesis
    using assms by (intro prepare_then_verify_other_code) simp_all
qed

theorem wrong_code_rejected_witness:
  "js ''abc123'' \<noteq> js ''ABC123'' \<and> length (js ''abc123'') = length (js ''ABC123'')
   \<and> utf8_encode (js ''abc123'') \<noteq> utf8_encode (js ''ABC123'')
   \<and> prepare_then_verify toy (Some (js ''ABC123'')) (Some (js ''THE TREASURE IS UNDER THE OAK''))
        toy_tape (typed (js ''abc123'')) = Ended RejectedHash
   \<and> length ([0x41, 0xD800] :: jsstring) = length (js ''AB'')
   \<and> \<not> well_formed [0x41, 0xD800]
   \<and> utf8_encode [0x41, 0xD800] \<noteq> utf8_encode (js ''AB'')
   \<and> prepare_then_verify toy (Some (js ''AB'')) (Some (js ''THE TREASURE IS UNDER THE OAK''))
        toy_tape (typed [0x41, 0xD800]) = Ended RejectedHash"
proof -
  have 1: "js ''ABC123'' \<noteq> []" and 2: "js ''THE TREASURE IS UNDER THE OAK'' \<noteq> []"
    and 3: "js ''AB'' \<noteq> []"
    by (simp_all add: js_def)
  have 4: "js ''abc123'' \<noteq> js ''ABC123''"
    and 5: "length (js ''abc123'') = length (js ''ABC123'')"
    and 6: "length ([0x41, 0xD800] :: jsstring) = length (js ''AB'')"
    by (simp_all add: js_def)
  have 7: "utf8_encode (js ''abc123'') \<noteq> utf8_encode (js ''ABC123'')"
    and 8: "utf8_encode [0x41, 0xD800] \<noteq> utf8_encode (js ''AB'')"
    by (simp_all add: js_def utf8_encode_def utf8_bytes_def lone_def is_high_def is_low_def)
  have 9: "digest toy SHA_256 (utf8_encode (js ''abc123''))
             = digest toy SHA_256 (utf8_encode (js ''ABC123''))
          \<longrightarrow> utf8_encode (js ''abc123'') = utf8_encode (js ''ABC123'')"
    and 10: "digest toy SHA_256 (utf8_encode [0x41, 0xD800])
             = digest toy SHA_256 (utf8_encode (js ''AB''))
          \<longrightarrow> utf8_encode [0x41, 0xD800] = utf8_encode (js ''AB'')"
    by (simp_all add: toy_def js_def utf8_encode_def utf8_bytes_def lone_def is_high_def
        is_low_def)
  have 11: "getCode (typed (js ''abc123'')) = js ''abc123''"
    and 12: "getCode (typed [0x41, 0xD800]) = [0x41, 0xD800]"
    by (simp_all add: typed_simps)
  have 13: "\<not> well_formed [0x41, 0xD800]"
    by (simp add: well_formed_def is_high_def is_low_def)
  note a = wrong_code_rejected [OF 1 2 5 7 9 typed_simps(1,2) 11, of toy_tape]
  note b = wrong_code_rejected [OF 3 2 6 8 10 typed_simps(1,2) 12, of toy_tape]
  show ?thesis by (intro conjI) (rule 4 5 6 7 8 13 a b)+
qed

text \<open>
  The claim as stated, for every candidate, fails: an unpaired surrogate is encoded as
  U+FFFD, so the candidate D800 and the secret code FFFD are different strings of length
  one with the same bytes; the hash and the key are the same and the candidate is accepted.
\<close>

theorem wrong_code_counterexample:
  "[0xD800] \<noteq> ([0xFFFD] :: jsstring) \<and> length ([0xD800] :: jsstring) = length ([0xFFFD] :: jsstring)
   \<and> utf8_encode [0xD800] = utf8_encode [0xFFFD]
   \<and> base64_inverts toy \<and> gcm_correct toy
   \<and> prepare_then_verify toy (Some [0xFFFD]) (Some (js ''M'')) toy_tape (typed [0xD800])
       = Ended (Accepted (js ''M''))"
proof -
  have 1: "[0xFFFD] \<noteq> ([] :: jsstring)" and 2: "js ''M'' \<noteq> []" by (simp_all add: js_def)
  have 3: "utf8_encode [0xD800] = utf8_encode [0xFFFD]"
    by (simp add: utf8_encode_def utf8_bytes_def lone_def is_high_def is_low_def)
  have 4: "length (getCode (typed [0xD800])) = length ([0xFFFD] :: jsstring)"
    and 5: "utf8_encode (getCode (typed [0xD800])) = utf8_encode [0xFFFD]"
    using 3 by (simp_all add: typed_simps)
  have "text_decode (utf8_encode (js ''M'')) = js ''M''"
    by (simp add: text_decode_def utf8_encode_def utf8_bytes_def lone_def is_high_def is_low_def
        utf8_decode_def js_def utf16_units_def)
  then show ?thesis
    using 3 toy_base64 toy_gcm
      prepare_then_verify_same_bytes [OF 1 2 toy_base64 toy_gcm typed_simps(1,2) 4 5, of toy_tape]
    by (simp add: js_def)
qed



text \<open>
  C5. Order of the two checks: a call of \<^verbatim>\<open>verify\<close> that passes its guards makes the
  digest call first, before any other platform call. When the hash differs from
  \<^verbatim>\<open>CODE_HASH\<close> the digest is the only platform call and the attempt ends in
  RejectedHash: no key is imported or derived and nothing is decrypted. When the hash
  matches, the calls that follow are those of \<^verbatim>\<open>decryptMessage\<close>.
\<close>

theorem hash_check_first:
  assumes "\<not> isVerifying u" "length (getCode u) = CODE_LENGTH K" "revealed u = None"
  shows "\<exists>u' l. verify P K u = (Inr u', OpDigest # l)
     \<and> (hash_of P (getCode u) \<noteq> CODE_HASH K \<longrightarrow> l = [] \<and> phase u' = RejectedHash)
     \<and> (hash_of P (getCode u) = CODE_HASH K \<longrightarrow> l = snd (decryptMessage P K (getCode u)))"
proof (cases "hash_of P (getCode u) = CODE_HASH K")
  case True
  obtain r l where d: "decryptMessage P K (getCode u) = (Inr r, l)"
    using decryptMessage_returns [of P K "getCode u"]
    by (cases "decryptMessage P K (getCode u)") auto
  show ?thesis
    using True d assms(1,2) by (simp add: verify_past_guards verify_resume_match [OF True d])
next
  case False
  then show ?thesis
    using assms by (simp add: verify_past_guards verify_resume_mismatch phase_rejected_hash)
qed

theorem hash_check_first_witness:
  "\<not> isVerifying (typed (js ''B''))
   \<and> length (getCode (typed (js ''B''))) = CODE_LENGTH toy_embedded
   \<and> revealed (typed (js ''B'')) = None
   \<and> hash_of toy (getCode (typed (js ''B''))) \<noteq> CODE_HASH toy_embedded
   \<and> snd (verify toy toy_embedded (typed (js ''B''))) = [OpDigest]
   \<and> verify_outcome toy toy_embedded (typed (js ''B'')) = Ended RejectedHash"
proof -
  have 2: "length (getCode (typed (js ''B''))) = CODE_LENGTH toy_embedded"
    by (simp add: typed_simps toy_embedded_def js_def)
  have 4: "hash_of toy (getCode (typed (js ''B''))) \<noteq> CODE_HASH toy_embedded"
    by (simp add: typed_simps toy_run)
  from hash_check_first [OF typed_simps(1) 2 typed_simps(2), of toy] 4
  obtain u' where "verify toy toy_embedded (typed (js ''B'')) = (Inr u', [OpDigest])"
    "phase u' = RejectedHash"
    by auto
  then have "snd (verify toy toy_embedded (typed (js ''B''))) = [OpDigest]"
    "verify_outcome toy toy_embedded (typed (js ''B'')) = Ended RejectedHash"
    by (simp_all add: verify_outcome_def)
  then show ?thesis using 2 4 by (simp add: typed_simps)
qed

text \<open>
  C6. Failure after the hash check: when the hash matches and anything is thrown in the
  \<^verbatim>\<open>try\<close> block of \<^verbatim>\<open>decryptMessage\<close> (by \<^verbatim>\<open>atob\<close>, by the key derivation or by the
  decryption, whose only error is raised for a tag that does not verify or data shorter
  than a tag), \<^verbatim>\<open>verify\<close> returns normally, with the flag cleared and the one status
  DECRYPTION FAILURE whatever was thrown: it ends in RejectedDecrypt.
\<close>

theorem decrypt_failure_policy:
  assumes "\<not> isVerifying u" "length (getCode u) = CODE_LENGTH K" "revealed u = None"
    and "hash_of P (getCode u) = CODE_HASH K"
    and "decryptMessage_try P K (getCode u) = (Inl e, l)"
  shows "verify P K u =
      (Inr (u\<lparr>isVerifying := False, statusText := ''DECRYPTION FAILURE'',
               statusClass := ''status error'', shakeTimers := Suc (shakeTimers u)\<rparr>),
       OpDigest # l)
    \<and> verify_outcome P K u = Ended RejectedDecrypt"
proof -
  have d: "decryptMessage P K (getCode u) = (Inr None, l)"
    using assms(5) by (simp add: decryptMessage_def io_catch_def io_return_def)
  have "verify P K u =
      (Inr (u\<lparr>isVerifying := False, statusText := ''DECRYPTION FAILURE'',
               statusClass := ''status error'', shakeTimers := Suc (shakeTimers u)\<rparr>),
       OpDigest # l)"
    using assms(1,2)
    by (simp add: verify_past_guards verify_resume_match [OF assms(4) d] triggerShake_def
        showError_def)
  moreover have "verify_outcome P K u = Ended RejectedDecrypt"
    using assms(1-4) d by (simp add: verify_outcome_match)
  ultimately show ?thesis by simp
qed

theorem decrypt_failure_policy_witness:
  "\<not> isVerifying (typed (js ''A''))
   \<and> length (getCode (typed (js ''A''))) = CODE_LENGTH (toy_embedded\<lparr>SALT := [0x100]\<rparr>)
   \<and> hash_of toy (getCode (typed (js ''A''))) = CODE_HASH (toy_embedded\<lparr>SALT := [0x100]\<rparr>)
   \<and> decryptMessage_try toy (toy_embedded\<lparr>SALT := [0x100]\<rparr>) (getCode (typed (js ''A'')))
       = (Inl InvalidCharacterError, [OpAtob])
   \<and> verify_outcome toy (toy_embedded\<lparr>SALT := [0x100]\<rparr>) (typed (js ''A''))
       = Ended RejectedDecrypt"
proof -
  let ?K = "toy_embedded\<lparr>SALT := [0x100]\<rparr>"
  have 2: "length (getCode (typed (js ''A''))) = CODE_LENGTH ?K"
    by (simp add: typed_simps toy_embedded_def js_def)
  have 4: "hash_of toy (getCode (typed (js ''A''))) = CODE_HASH ?K"
    by (simp add: typed_simps toy_run)
  have "atob toy (SALT ?K) = Inl InvalidCharacterError" by (simp add: toy_def)
  then have 5: "decryptMessage_try toy ?K (getCode (typed (js ''A'')))
      = (Inl InvalidCharacterError, [OpAtob])"
    by (rule try_fails_on_bad_salt)
  show ?thesis
    using 2 4 5 decrypt_failure_policy [OF typed_simps(1) 2 typed_simps(2) 4 5]
    by (simp add: typed_simps)
qed

text \<open>
  C7. A call of \<^verbatim>\<open>verify\<close> with a candidate whose length differs from \<^verbatim>\<open>CODE_LENGTH\<close>
  changes nothing: the state of the page is the one before the call, no platform call is
  made (no hash, no key derivation, no decryption), nothing is thrown, and no call is
  left waiting.
\<close>

theorem length_guard:
  assumes "length (getCode (page w)) \<noteq> CODE_LENGTH K"
  shows "verify P K (page w) = (Inr (page w), []) \<and> step P K w CallVerify = w"
  using assms by (simp add: verify_def verify_begin_def step_def io_return_def Let_def)

theorem length_guard_witness:
  "length (getCode (page (start toy_embedded))) \<noteq> CODE_LENGTH toy_embedded
   \<and> verify toy toy_embedded (page (start toy_embedded)) = (Inr (page (start toy_embedded)), [])
   \<and> step toy toy_embedded (start toy_embedded) CallVerify = start toy_embedded"
proof -
  have h: "length (getCode (page (start toy_embedded))) \<noteq> CODE_LENGTH toy_embedded"
    by (simp add: getCode_def fresh_def start_def toy_embedded_def)
  show ?thesis using h length_guard [OF h, of toy] by simp
qed

text \<open>
  C8. One attempt at a time, and acceptance is final. After every sequence of events from
  the start of the page, at most one call of \<^verbatim>\<open>verify\<close> waits, and a call of
  \<^verbatim>\<open>verify\<close> made while one waits changes nothing. Once a message has been revealed, a
  call of \<^verbatim>\<open>verify\<close> changes nothing, and after any further events the page is still in
  Accepted with the same message, no call waits and no further platform call has been made.
\<close>

theorem single_flight_terminal:
  assumes "w = run P K (start K) evs0"
  shows "length (waiting w) \<le> 1
    \<and> (waiting w \<noteq> [] \<longrightarrow> phase (page w) = Verifying \<and> step P K w CallVerify = w)
    \<and> (phase (page w) = Accepted m \<longrightarrow>
          step P K w CallVerify = w
          \<and> phase (page (run P K w evs)) = Accepted m \<and> waiting (run P K w evs) = []
          \<and> calls (run P K w evs) = calls w)"
proof (intro conjI impI)
  have "single_flight (start K)" by (simp add: single_flight_def start_def fresh_def)
  then have sf: "single_flight w" unfolding assms by (rule single_flight_run)
  then show "length (waiting w) \<le> 1" by (simp add: single_flight_def)
  {
    assume "waiting w \<noteq> []"
    then have v: "isVerifying (page w)" "revealed (page w) = None"
      using sf by (auto simp: single_flight_def)
    then show "phase (page w) = Verifying" by (simp add: phase_def)
    from v show "step P K w CallVerify = w" by (simp add: step_CallVerify_busy)
  }
  {
    assume "phase (page w) = Accepted m"
    then have r: "revealed (page w) = Some m" by (simp add: phase_Accepted)
    then have "isVerifying (page w)" using sf by (auto simp: single_flight_def)
    then show "step P K w CallVerify = w" by (rule step_CallVerify_busy)
    from accepted_run [OF sf r, of P K evs]
    show "phase (page (run P K w evs)) = Accepted m" "waiting (run P K w evs) = []"
      "calls (run P K w evs) = calls w"
      by (simp_all add: phase_Accepted)
  }
qed

theorem single_flight_terminal_witness:
  "waiting (run toy toy_embedded (start toy_embedded) [SetBox 0 (js ''A''), CallVerify])
     = [js ''A'']
   \<and> step toy toy_embedded
         (run toy toy_embedded (start toy_embedded) [SetBox 0 (js ''A''), CallVerify]) CallVerify
       = run toy toy_embedded (start toy_embedded) [SetBox 0 (js ''A''), CallVerify]
   \<and> phase (page (run toy toy_embedded (start toy_embedded)
         [SetBox 0 (js ''A''), CallVerify, ClearError, CallVerify, DelayOver]))
       = Accepted (js ''M'')
   \<and> phase (page (run toy toy_embedded
         (run toy toy_embedded (start toy_embedded)
            [SetBox 0 (js ''A''), CallVerify, ClearError, CallVerify, DelayOver])
         [CallVerify, SetBox 0 (js ''B''), CallVerify, ClearError, DelayOver, ShakeOver]))
       = Accepted (js ''M'')
   \<and> calls (run toy toy_embedded
         (run toy toy_embedded (start toy_embedded)
            [SetBox 0 (js ''A''), CallVerify, ClearError, CallVerify, DelayOver])
         [CallVerify, SetBox 0 (js ''B''), CallVerify, ClearError, DelayOver, ShakeOver])
       = [OpDigest, OpAtob, OpAtob, OpAtob, OpImportKey, OpDeriveKey, OpDecrypt]"
proof -
  let ?e1 = "[SetBox 0 (js ''A''), CallVerify]"
  let ?e2 = "[SetBox 0 (js ''A''), CallVerify, ClearError, CallVerify, DelayOver]"
  let ?w1 = "run toy toy_embedded (start toy_embedded) ?e1"
  let ?w2 = "run toy toy_embedded (start toy_embedded) ?e2"
  let ?evs = "[CallVerify, SetBox 0 (js ''B''), CallVerify, ClearError, DelayOver, ShakeOver]"
  have a: "waiting ?w1 = [js ''A'']" by (simp add: toy_run)
  have b: "phase (page ?w2) = Accepted (js ''M'')" by (simp add: toy_run phase_def)
  have l: "calls ?w2 = [OpDigest, OpAtob, OpAtob, OpAtob, OpImportKey, OpDeriveKey, OpDecrypt]"
    by (simp add: toy_run)
  have c: "step toy toy_embedded ?w1 CallVerify = ?w1"
    using single_flight_terminal [OF refl, of toy toy_embedded ?e1] a by simp
  have d: "phase (page (run toy toy_embedded ?w2 ?evs)) = Accepted (js ''M'')"
    "calls (run toy toy_embedded ?w2 ?evs) = calls ?w2"
    using single_flight_terminal [OF refl, of toy toy_embedded ?e2 "js ''M''" ?evs] b by blast+
  show ?thesis by (intro conjI) (rule a b c d(1) d(2) [unfolded l])+
qed

text \<open>
  C9. When \<^verbatim>\<open>SECRET_CODE\<close> or \<^verbatim>\<open>SECRET_MESSAGE\<close> is unset or empty, the build exits
  with status 1 after the error message and nothing else: no hash, no random bytes, no key
  derivation, no encryption, and no write of dist/index.html.
\<close>

theorem configuration_error:
  assumes "falsy SECRET_CODE \<or> falsy SECRET_MESSAGE"
  shows "build P SECRET_CODE SECRET_MESSAGE tape = (Inl 1, [ConsoleError])"
  using assms by (simp add: build_def)

theorem configuration_error_witness:
  "(falsy (Some []) \<or> falsy (Some (js ''M'')))
   \<and> build toy (Some []) (Some (js ''M'')) toy_tape = (Inl 1, [ConsoleError])"
proof -
  have h: "falsy (Some []) \<or> falsy (Some (js ''M''))" by (simp add: falsy_def)
  show ?thesis using h configuration_error [OF h, of toy toy_tape] by simp
qed

text \<open>
  C10. \<^verbatim>\<open>decryptMessage\<close> never throws: for every platform, every value of the embedded
  constants and every code it returns \<^verbatim>\<open>null\<close> or the decoded text of some plaintext.
\<close>

theorem decryptMessage_total:
  "\<exists>l. decryptMessage P K code = (Inr None, l)
     \<or> (\<exists>pt. decryptMessage P K code = (Inr (Some (text_decode pt)), l))"
proof (cases "decryptMessage_try P K code")
  case (Pair x l)
  show ?thesis
  proof (cases x)
    case (Inl e)
    with Pair show ?thesis by (simp add: decryptMessage_def io_catch_def io_return_def)
  next
    case (Inr r)
    with Pair obtain pt where "r = Some (text_decode pt)"
      using decryptMessage_try_value by blast
    with Pair Inr show ?thesis by (auto simp: decryptMessage_def io_catch_def)
  qed
qed

end
